theory Spec2Isabelle
  imports Complex_Main "HOL-Library.Log_Nat" "HOL-Library.Multiset"
begin

section \<open>JavaScript numbers\<close>

text \<open>
  A JavaScript \<^verbatim>\<open>number\<close> is an IEEE 754 double: a finite value, \<^verbatim>\<open>NaN\<close>,
  \<^verbatim>\<open>Infinity\<close> or \<^verbatim>\<open>-Infinity\<close>. A finite value is \<open>Val m e\<close>, the number
  \<open>m * 2^e\<close>. The doubles are the values with \<open>\<bar>m\<bar> < 2^53\<close>, \<open>- 1074 \<le> e\<close> and
  \<open>\<bar>m\<bar> * 2^e < 2^1024\<close>; the arithmetic returns them with \<open>m\<close> odd, and zero as
  \<open>Val 0 0\<close>. The sign of zero is not part of the model.
\<close>

datatype number = Val int int | NaN | Infinity | NegInfinity

fun isFinite :: "number \<Rightarrow> bool" where
  "isFinite (Val _ _) = True"
| "isFinite _ = False"

text \<open>Truthiness of a number, as tested by \<^verbatim>\<open>!x\<close> and \<^verbatim>\<open>!!x\<close>: \<^verbatim>\<open>0\<close> and \<^verbatim>\<open>NaN\<close> are falsy.\<close>

fun truthy :: "number \<Rightarrow> bool" where
  "truthy (Val m e) = (m \<noteq> 0)"
| "truthy NaN = False"
| "truthy _ = True"

text \<open>The representation of \<open>m * 2^e\<close> with an odd \<open>m\<close>.\<close>

function canonical :: "int \<Rightarrow> int \<Rightarrow> number" where
  "canonical m e =
     (if m = 0 then Val 0 0
      else if even m then canonical (m div 2) (e + 1)
      else Val m e)"
  by pat_completeness auto
termination
  by (relation "measure (\<lambda>(m, e). nat \<bar>m\<bar>)") (auto elim!: evenE)

declare canonical.simps [simp del]

definition signed_inf :: "bool \<Rightarrow> number" where
  "signed_inf positive = (if positive then Infinity else NegInfinity)"

text \<open>
  Rounding to the nearest double, ties to even. \<open>round_even a s\<close> drops the \<open>s\<close> low
  bits of \<open>a\<close>; \<open>double_of m e\<close> is the double nearest to \<open>m * 2^e\<close>: it keeps 53
  bits, or the bits down to \<open>2^-1074\<close> when the value is subnormal, and overflows to an
  infinity when the rounded value reaches \<open>2^1024\<close>.
\<close>

definition round_even :: "int \<Rightarrow> nat \<Rightarrow> int" where
  "round_even a s =
     (let q = a div 2 ^ s; r = a mod 2 ^ s; h = 2 ^ (s - 1)
      in if h < r \<or> (r = h \<and> odd q) then q + 1 else q)"

definition finish :: "int \<Rightarrow> int \<Rightarrow> number" where
  "finish m e = (if m \<noteq> 0 \<and> 1024 < bitlen \<bar>m\<bar> + e then signed_inf (0 < m) else canonical m e)"

definition double_of :: "int \<Rightarrow> int \<Rightarrow> number" where
  "double_of m e =
     (let s = max (bitlen \<bar>m\<bar> - 53) (- 1074 - e)
      in if s \<le> 0 then finish m e
         else finish (sgn m * round_even \<bar>m\<bar> (nat s)) (e + s))"

text \<open>An integer literal, as the nearest double.\<close>

definition ofInt :: "int \<Rightarrow> number" where
  "ofInt k = double_of k 0"

text \<open>The mantissa of \<open>m * 2^e\<close> at a smaller exponent \<open>e0\<close>.\<close>

definition aligned :: "int \<Rightarrow> int \<Rightarrow> int \<Rightarrow> int" where
  "aligned m e e0 = m * 2 ^ nat (e - e0)"

fun neg :: "number \<Rightarrow> number" where
  "neg (Val m e) = Val (- m) e"
| "neg NaN = NaN"
| "neg Infinity = NegInfinity"
| "neg NegInfinity = Infinity"

text \<open>Addition: the exact sum of two finite values, rounded.\<close>

fun add :: "number \<Rightarrow> number \<Rightarrow> number" where
  "add (Val m1 e1) (Val m2 e2) =
     double_of (aligned m1 e1 (min e1 e2) + aligned m2 e2 (min e1 e2)) (min e1 e2)"
| "add NaN _ = NaN"
| "add _ NaN = NaN"
| "add Infinity NegInfinity = NaN"
| "add NegInfinity Infinity = NaN"
| "add Infinity _ = Infinity"
| "add _ Infinity = Infinity"
| "add NegInfinity _ = NegInfinity"
| "add _ NegInfinity = NegInfinity"

definition sub :: "number \<Rightarrow> number \<Rightarrow> number" where
  "sub a b = add a (neg b)"

text \<open>Multiplication: the exact product of two finite values, rounded.\<close>

fun mul :: "number \<Rightarrow> number \<Rightarrow> number" where
  "mul (Val m1 e1) (Val m2 e2) = double_of (m1 * m2) (e1 + e2)"
| "mul NaN _ = NaN"
| "mul _ NaN = NaN"
| "mul Infinity (Val m e) = (if m = 0 then NaN else signed_inf (0 < m))"
| "mul NegInfinity (Val m e) = (if m = 0 then NaN else signed_inf (m < 0))"
| "mul (Val m e) Infinity = (if m = 0 then NaN else signed_inf (0 < m))"
| "mul (Val m e) NegInfinity = (if m = 0 then NaN else signed_inf (m < 0))"
| "mul Infinity Infinity = Infinity"
| "mul NegInfinity NegInfinity = Infinity"
| "mul Infinity NegInfinity = NegInfinity"
| "mul NegInfinity Infinity = NegInfinity"

text \<open>
  The quotient of two finite values with a non-zero divisor, rounded once: the integer
  quotient is taken with more than 55 bits, and a last bit records whether the division
  left a remainder, so that rounding it is rounding the exact quotient.
\<close>

definition quotient :: "int \<Rightarrow> int \<Rightarrow> int \<Rightarrow> int \<Rightarrow> number" where
  "quotient m1 e1 m2 e2 =
     (let k = nat (bitlen \<bar>m2\<bar>) + 55;
          n = \<bar>m1\<bar> * 2 ^ k;
          q = n div \<bar>m2\<bar>;
          sticky = (if n mod \<bar>m2\<bar> = 0 then 0 else 1)
      in double_of (sgn m1 * sgn m2 * (2 * q + sticky)) (e1 - e2 - int k - 1))"

text \<open>
  Division never raises in JavaScript: a non-zero value over zero is an infinity and
  \<^verbatim>\<open>0 / 0\<close> is \<^verbatim>\<open>NaN\<close>. The zero divisor is taken as \<^verbatim>\<open>+0\<close>.
\<close>

fun divide_num :: "number \<Rightarrow> number \<Rightarrow> number" where
  "divide_num (Val m1 e1) (Val m2 e2) =
     (if m2 = 0 then (if m1 = 0 then NaN else signed_inf (0 < m1))
      else quotient m1 e1 m2 e2)"
| "divide_num NaN _ = NaN"
| "divide_num _ NaN = NaN"
| "divide_num (Val m e) Infinity = Val 0 0"
| "divide_num (Val m e) NegInfinity = Val 0 0"
| "divide_num Infinity (Val m e) = signed_inf (0 \<le> m)"
| "divide_num NegInfinity (Val m e) = signed_inf (m < 0)"
| "divide_num Infinity Infinity = NaN"
| "divide_num Infinity NegInfinity = NaN"
| "divide_num NegInfinity Infinity = NaN"
| "divide_num NegInfinity NegInfinity = NaN"

text \<open>
  A decimal literal \<open>n / d\<close>, as the nearest double. The literals of the code are
  \<^verbatim>\<open>0.001\<close> and \<^verbatim>\<open>0.999\<close>: both integers are doubles, so their quotient rounded once
  is the double nearest to the decimal.
\<close>

definition decimal :: "int \<Rightarrow> int \<Rightarrow> number" where
  "decimal n d = divide_num (ofInt n) (ofInt d)"

text \<open>
  The comparisons \<^verbatim>\<open><\<close> and \<^verbatim>\<open><=\<close>, and \<^verbatim>\<open>>=\<close> with its arguments swapped;
  every comparison with \<^verbatim>\<open>NaN\<close> is false.
\<close>

fun lt :: "number \<Rightarrow> number \<Rightarrow> bool" where
  "lt (Val m1 e1) (Val m2 e2) = (aligned m1 e1 (min e1 e2) < aligned m2 e2 (min e1 e2))"
| "lt NaN _ = False"
| "lt _ NaN = False"
| "lt NegInfinity NegInfinity = False"
| "lt NegInfinity _ = True"
| "lt _ NegInfinity = False"
| "lt Infinity _ = False"
| "lt _ Infinity = True"

fun le :: "number \<Rightarrow> number \<Rightarrow> bool" where
  "le (Val m1 e1) (Val m2 e2) = (aligned m1 e1 (min e1 e2) \<le> aligned m2 e2 (min e1 e2))"
| "le NaN _ = False"
| "le _ NaN = False"
| "le NegInfinity _ = True"
| "le (Val m e) Infinity = True"
| "le Infinity Infinity = True"
| "le (Val m e) NegInfinity = False"
| "le Infinity (Val m e) = False"
| "le Infinity NegInfinity = False"

definition ge :: "number \<Rightarrow> number \<Rightarrow> bool" where
  "ge a b = le b a"

text \<open>\<^verbatim>\<open>Math.min\<close> of two numbers: \<^verbatim>\<open>NaN\<close> as soon as one argument is.\<close>

fun Math_min :: "number \<Rightarrow> number \<Rightarrow> number" where
  "Math_min NaN _ = NaN"
| "Math_min _ NaN = NaN"
| "Math_min a b = (if lt b a then b else a)"

text \<open>
  lodash \<^verbatim>\<open>clamp(number, lower, upper)\<close>: a \<^verbatim>\<open>NaN\<close> bound counts as \<^verbatim>\<open>0\<close>; a
  \<^verbatim>\<open>NaN\<close> number is returned as it is, any other one is first capped by \<^verbatim>\<open>upper\<close>,
  then raised to \<^verbatim>\<open>lower\<close>.
\<close>

definition clamp :: "number \<Rightarrow> number \<Rightarrow> number \<Rightarrow> number" where
  "clamp n lower upper =
     (let upper' = (if upper = NaN then ofInt 0 else upper);
          lower' = (if lower = NaN then ofInt 0 else lower)
      in if n = NaN then n
         else let n1 = (if le n upper' then n else upper')
              in (if ge n1 lower' then n1 else lower'))"

text \<open>
  The real number that a finite value denotes; \<^verbatim>\<open>0\<close> stands in for the non-finite
  ones. It is used to state properties, not by the code.
\<close>

fun valof :: "number \<Rightarrow> real" where
  "valof (Val m e) = of_int m * 2 powi e"
| "valof _ = 0"


section \<open>Paying users (functions/src/utils.ts)\<close>

text \<open>
  A Firestore transaction is modelled by the list of writes issued on it. The only
  write of this module is the one of \<^verbatim>\<open>updateUserBalance\<close>: an increment of the
  user's \<^verbatim>\<open>balance\<close> and of their \<^verbatim>\<open>totalDeposits\<close>.
\<close>

record balance_update =
  updUserId :: string
  balanceDelta :: number
  depositDelta :: number

type_synonym transaction = "balance_update list"

definition updateUserBalance :: "transaction \<Rightarrow> string \<Rightarrow> number \<Rightarrow> number \<Rightarrow> transaction" where
  "updateUserBalance t uid bd dd =
     t @ [\<lparr>updUserId = uid, balanceDelta = bd, depositDelta = dd\<rparr>]"

datatype pay_error = PayoutNotFinite number | DepositNotFinite number

text \<open>
  A call either throws or returns; in both cases the writes issued so far remain
  on the transaction, so the result is paired with the transaction after the call.
\<close>

datatype 'a outcome = Threw pay_error | Returned 'a

definition payUser :: "transaction \<Rightarrow> string \<Rightarrow> number \<Rightarrow> bool \<Rightarrow> unit outcome \<times> transaction" where
  "payUser t uid payout isDeposit =
     (if \<not> isFinite payout then (Threw (PayoutNotFinite payout), t)
      else (Returned (), updateUserBalance t uid payout (if isDeposit then payout else ofInt 0)))"

record payout_entry =
  userId :: string
  payout :: number
  deposit :: "number option"

record merged_payout =
  mergedUserId :: string
  mergedPayout :: number
  mergedDeposit :: number

text \<open>The validation loop of \<^verbatim>\<open>checkAndMergePayouts\<close>: the first offending entry throws.\<close>

fun checkPayouts :: "payout_entry list \<Rightarrow> pay_error option" where
  "checkPayouts [] = None"
| "checkPayouts (e # es) =
     (if \<not> isFinite (payout e) then Some (PayoutNotFinite (payout e))
      else case deposit e of
             Some d \<Rightarrow> (if \<not> isFinite d then Some (DepositNotFinite d) else checkPayouts es)
           | None \<Rightarrow> checkPayouts es)"

text \<open>
  lodash \<^verbatim>\<open>groupBy(payouts, 'userId')\<close>: the entries are visited in order; an entry
  is pushed onto the group of its key, and a key seen for the first time opens a new
  group. The object is an association list of its properties in the order they were
  created.
\<close>

fun pushGroup :: "string \<Rightarrow> payout_entry \<Rightarrow> (string \<times> payout_entry list) list
    \<Rightarrow> (string \<times> payout_entry list) list" where
  "pushGroup k e [] = [(k, [e])]"
| "pushGroup k e ((k', g) # rest) =
     (if k' = k then (k', g @ [e]) # rest else (k', g) # pushGroup k e rest)"

fun groupByUserId :: "(string \<times> payout_entry list) list \<Rightarrow> payout_entry list
    \<Rightarrow> (string \<times> payout_entry list) list" where
  "groupByUserId acc [] = acc"
| "groupByUserId acc (e # es) = groupByUserId (pushGroup (userId e) e acc) es"

text \<open>
  lodash \<^verbatim>\<open>sumBy\<close>: \<^verbatim>\<open>0\<close> on an empty array, otherwise the values are added from
  left to right, starting from the first one; every addition rounds to a double.
\<close>

definition sumBy :: "('a \<Rightarrow> number) \<Rightarrow> 'a list \<Rightarrow> number" where
  "sumBy f xs = (case xs of [] \<Rightarrow> ofInt 0 | x # rest \<Rightarrow> foldl (\<lambda>a y. add a (f y)) (f x) rest)"

definition depositOrZero :: "payout_entry \<Rightarrow> number" where
  "depositOrZero p = (case deposit p of Some d \<Rightarrow> d | None \<Rightarrow> ofInt 0)"

definition mergeGroup :: "string \<times> payout_entry list \<Rightarrow> merged_payout" where
  "mergeGroup kg =
     \<lparr>mergedUserId = fst kg,
      mergedPayout = sumBy payout (snd kg),
      mergedDeposit = sumBy depositOrZero (snd kg)\<rparr>"

text \<open>
  The order in which \<^verbatim>\<open>mapValues\<close> and \<^verbatim>\<open>Object.values\<close> visit the properties of
  an object: first the keys that are array indices (a decimal numeral without leading
  zero, at most \<^verbatim>\<open>2^32 - 2\<close>) in ascending numeric order, then the other keys in the
  order they were created.
\<close>

definition digitValue :: "char \<Rightarrow> int option" where
  "digitValue c = map_of (zip ''0123456789'' [0, 1, 2, 3, 4, 5, 6, 7, 8, 9]) c"

fun digitsValue :: "int \<Rightarrow> string \<Rightarrow> int option" where
  "digitsValue acc [] = Some acc"
| "digitsValue acc (c # cs) =
     (case digitValue c of None \<Rightarrow> None | Some d \<Rightarrow> digitsValue (10 * acc + d) cs)"

definition arrayIndex :: "string \<Rightarrow> int option" where
  "arrayIndex k =
     (case k of
        [] \<Rightarrow> None
      | c # cs \<Rightarrow>
          (if c = CHR ''0'' \<and> cs \<noteq> [] then None
           else case digitsValue 0 k of
                  None \<Rightarrow> None
                | Some v \<Rightarrow> (if v \<le> 4294967294 then Some v else None)))"

definition indexOf :: "string \<Rightarrow> int" where
  "indexOf k = (case arrayIndex k of Some v \<Rightarrow> v | None \<Rightarrow> 0)"

definition ownKeysOrder :: "(string \<times> 'a) list \<Rightarrow> (string \<times> 'a) list" where
  "ownKeysOrder kvs =
     sort_key (\<lambda>kv. indexOf (fst kv)) (filter (\<lambda>kv. arrayIndex (fst kv) \<noteq> None) kvs) @
     filter (\<lambda>kv. arrayIndex (fst kv) = None) kvs"

definition checkAndMergePayouts :: "payout_entry list \<Rightarrow> pay_error + merged_payout list" where
  "checkAndMergePayouts payouts =
     (case checkPayouts payouts of
        Some err \<Rightarrow> Inl err
      | None \<Rightarrow> Inr (map mergeGroup (ownKeysOrder (groupByUserId [] payouts))))"

fun updateAll :: "transaction \<Rightarrow> merged_payout list \<Rightarrow> transaction" where
  "updateAll t [] = t"
| "updateAll t (m # ms) =
     updateAll (updateUserBalance t (mergedUserId m) (mergedPayout m) (mergedDeposit m)) ms"

definition payUsers :: "transaction \<Rightarrow> payout_entry list \<Rightarrow> unit outcome \<times> transaction" where
  "payUsers t payouts =
     (case checkAndMergePayouts payouts of
        Inl err \<Rightarrow> (Threw err, t)
      | Inr mergedPayouts \<Rightarrow> (Returned (), updateAll t mergedPayouts))"

text \<open>
  An entry that the validation loop rejects: its payout is not finite, or its deposit
  is defined and not finite. The predicate is used to state the properties below.
\<close>

definition nonFiniteEntry :: "payout_entry \<Rightarrow> bool" where
  "nonFiniteEntry e =
     (\<not> isFinite (payout e) \<or> (case deposit e of Some d \<Rightarrow> \<not> isFinite d | None \<Rightarrow> False))"

section \<open>Contracts and the bet-list filters (web/components/bet/bets-list.tsx)\<close>

text \<open>
  The fields of a contract that the code below reads. \<^verbatim>\<open>resolutionTime\<close> and
  \<^verbatim>\<open>closeTime\<close> are optional timestamps.
\<close>

record contract =
  contractId :: string
  resolutionTime :: "number option"
  closeTime :: "number option"
  isResolved :: bool

text \<open>
  The entries of \<^verbatim>\<open>FILTERS\<close>. \<^verbatim>\<open>Date.now()\<close> is the parameter \<open>now\<close>;
  \<^verbatim>\<open>!!c.resolutionTime\<close> is the truthiness of the field and
  \<^verbatim>\<open>c.closeTime ?? Infinity\<close> replaces a missing close time only.
\<close>

definition FILTERS_resolved :: "contract \<Rightarrow> bool" where
  "FILTERS_resolved c = (case resolutionTime c of Some t \<Rightarrow> truthy t | None \<Rightarrow> False)"

definition FILTERS_closed :: "number \<Rightarrow> contract \<Rightarrow> bool" where
  "FILTERS_closed now c =
     (\<not> FILTERS_resolved c \<and> lt (case closeTime c of Some t \<Rightarrow> t | None \<Rightarrow> Infinity) now)"

definition FILTERS_open :: "number \<Rightarrow> contract \<Rightarrow> bool" where
  "FILTERS_open now c = (\<not> (FILTERS_closed now c \<or> FILTERS_resolved c))"

definition FILTERS_all :: "contract \<Rightarrow> bool" where
  "FILTERS_all c = True"

definition FILTERS_sold :: "contract \<Rightarrow> bool" where
  "FILTERS_sold c = True"

definition FILTERS_limit_bet :: "number \<Rightarrow> contract \<Rightarrow> bool" where
  "FILTERS_limit_bet now c = FILTERS_open now c"

section \<open>The limit order panel (LimitOrderPanel of the bet panel)\<close>

datatype binary_outcome = YES | NO

text \<open>
  The props and React state of the panel that \<^verbatim>\<open>submitBet\<close> reads. A signed-in user
  is \<open>Some\<close> of their id; \<^verbatim>\<open>undefined\<close> state is \<open>None\<close>.
\<close>

record panel =
  user :: "string option"
  panelContract :: contract
  betAmount :: "number option"
  lowLimitProb :: "number option"
  highLimitProb :: "number option"
  error :: "string option"
  isSubmitting :: bool









definition yesLimitProb :: "panel \<Rightarrow> number option" where
  "yesLimitProb st =
     (case lowLimitProb st of
        None \<Rightarrow> None
      | Some l \<Rightarrow> Some (clamp (divide_num l (ofInt 100)) (decimal 1 1000) (decimal 999 1000)))"

definition noLimitProb :: "panel \<Rightarrow> number option" where
  "noLimitProb st =
     (case highLimitProb st of
        None \<Rightarrow> None
      | Some h \<Rightarrow> Some (clamp (divide_num h (ofInt 100)) (decimal 1 1000) (decimal 999 1000)))"

definition amount :: "panel \<Rightarrow> number" where
  "amount st = (case betAmount st of Some a \<Rightarrow> a | None \<Rightarrow> ofInt 0)"

definition shares :: "panel \<Rightarrow> number" where
  "shares st =
     (case yesLimitProb st of
        Some y \<Rightarrow>
          (case noLimitProb st of
             Some n \<Rightarrow> Math_min (divide_num (amount st) y) (divide_num (amount st) (sub (ofInt 1) n))
           | None \<Rightarrow> divide_num (amount st) y)
      | None \<Rightarrow>
          (case noLimitProb st of
             Some n \<Rightarrow> divide_num (amount st) (sub (ofInt 1) n)
           | None \<Rightarrow> ofInt 0))"

definition yesAmount :: "panel \<Rightarrow> number" where
  "yesAmount st = mul (shares st) (case yesLimitProb st of Some y \<Rightarrow> y | None \<Rightarrow> ofInt 1)"

definition noAmount :: "panel \<Rightarrow> number" where
  "noAmount st =
     mul (shares st) (sub (ofInt 1) (case noLimitProb st of Some n \<Rightarrow> n | None \<Rightarrow> ofInt 0))"







section \<open>Bets and limit orders\<close>

record fill =
  fillAmount :: real
  fillShares :: real
  matchedBetId :: "string option"
  fillTimestamp :: nat

text \<open>
  A bet, with the fields of the data model that the definitions below use. Money and
  shares of a stored bet are finite, so they are reals here.
\<close>

record bet =
  b_id :: string
  b_outcome :: binary_outcome
  b_amount :: real
  b_shares :: real
  b_limitProb :: "real option"
  b_orderAmount :: "real option"
  b_fills :: "fill list"
  b_isFilled :: bool
  b_isCancelled :: bool

text \<open>
  The filter of \<^verbatim>\<open>ContractBets\<close> that selects the open limit orders of a user:
  \<^verbatim>\<open>bet.limitProb !== undefined && !bet.isCancelled && !bet.isFilled\<close>.
\<close>

definition isOpenLimitBet :: "bet \<Rightarrow> bool" where
  "isOpenLimitBet b = (b_limitProb b \<noteq> None \<and> \<not> b_isCancelled b \<and> \<not> b_isFilled b)"

definition limitBets :: "bet list \<Rightarrow> bet list" where
  "limitBets bets = filter isOpenLimitBet bets"

text \<open>The remaining amount of an order: \<^verbatim>\<open>orderAmount - sum(fills.amount)\<close>.\<close>

definition remainingAmount :: "bet \<Rightarrow> real" where
  "remainingAmount b =
     (case b_orderAmount b of Some oa \<Rightarrow> oa | None \<Rightarrow> 0) - sum_list (map fillAmount (b_fills b))"

text \<open>
  Modelled from the spec: the limit order matcher (\<^verbatim>\<open>computeFills\<close> of common/new-bet,
  which is not among the sources). A limit order is created open, with no fill. A match
  applies to an order of the open-order set only; it consumes the smaller of the
  incoming order's remaining amount \<open>want\<close> and the order's remaining amount, and
  records a fill; an order left with no remaining amount becomes filled. Cancellation
  applies to an open order only.
\<close>

definition newLimitOrder :: "string \<Rightarrow> binary_outcome \<Rightarrow> real \<Rightarrow> real \<Rightarrow> bet" where
  "newLimitOrder bid outc orderAmt prob =
     \<lparr>b_id = bid, b_outcome = outc, b_amount = 0, b_shares = 0, b_limitProb = Some prob,
      b_orderAmount = Some orderAmt, b_fills = [], b_isFilled = False, b_isCancelled = False\<rparr>"

datatype order_event = Match real real "string option" nat | Cancel

fun applyEvent :: "order_event \<Rightarrow> bet \<Rightarrow> bet option" where
  "applyEvent (Match want sharesPerUnit matched ts) b =
     (if isOpenLimitBet b \<and> 0 < want then
        (let a = min want (remainingAmount b) in
         Some (b\<lparr>b_amount := b_amount b + a,
                 b_shares := b_shares b + a * sharesPerUnit,
                 b_fills := b_fills b @
                   [\<lparr>fillAmount = a, fillShares = a * sharesPerUnit,
                     matchedBetId = matched, fillTimestamp = ts\<rparr>],
                 b_isFilled := (remainingAmount b - a \<le> 0)\<rparr>))
      else None)"
| "applyEvent Cancel b =
     (if isOpenLimitBet b then Some (b\<lparr>b_isCancelled := True\<rparr>) else None)"

text \<open>A history of events; an event that does not apply leaves the order as it is.\<close>

fun applyEvents :: "order_event list \<Rightarrow> bet \<Rightarrow> bet" where
  "applyEvents [] b = b"
| "applyEvents (ev # evs) b =
     applyEvents evs (case applyEvent ev b of Some b' \<Rightarrow> b' | None \<Rightarrow> b)"

datatype order_state = Open | PartiallyFilled | Filled | Cancelled

definition orderState :: "bet \<Rightarrow> order_state" where
  "orderState b =
     (if b_isCancelled b then Cancelled
      else if b_isFilled b then Filled
      else if b_fills b = [] then Open
      else PartiallyFilled)"

section \<open>Settlement\<close>

datatype resolution = Resolve binary_outcome | CANCEL | MKT

text \<open>
  Modelled from the spec: the payout of a bet on a resolved market (\<^verbatim>\<open>resolvedPayout\<close>
  of common/calculate, which is not among the sources). A binary resolution pays one
  unit per share of the winning outcome and nothing for the other one, a cancelled
  market refunds the amount wagered, and a resolution to a probability pays YES shares
  at that probability and NO shares at its complement.
\<close>

definition resolvedPayout :: "resolution \<Rightarrow> real \<Rightarrow> bet \<Rightarrow> real" where
  "resolvedPayout res resolutionProbability b =
     (case res of
        Resolve winner \<Rightarrow> (if b_outcome b = winner then b_shares b else 0)
      | CANCEL \<Rightarrow> b_amount b
      | MKT \<Rightarrow> (case b_outcome b of
                  YES \<Rightarrow> b_shares b * resolutionProbability
                | NO \<Rightarrow> b_shares b * (1 - resolutionProbability)))"

section \<open>Pricing\<close>



section \<open>Properties of the double arithmetic\<close>

text \<open>
  The constants of the code as doubles, the value of a result, and the error of one
  rounding: a result in the normal range is within a relative \<open>2^-53\<close> of the exact
  value, and a quotient, which is rounded after its last bit was made sticky, within
  \<open>2^-52\<close>.
\<close>

lemma ofInt_0: "ofInt 0 = Val 0 0" by code_simp

lemma ofInt_1: "ofInt 1 = Val 1 0" by code_simp

lemma ofInt_100: "ofInt 100 = Val 25 2" by code_simp

lemma decimal_lo: "decimal 1 1000 = Val 1152921504606847 (- 60)" by code_simp

lemma decimal_hi: "decimal 999 1000 = Val 8998192055486251 (- 53)" by code_simp

lemma valof_canonical: "valof (canonical m e) = of_int m * 2 powi e"
proof (induction m e rule: canonical.induct)
  case (1 m e)
  show ?case
  proof (cases "m = 0")
    case True
    then show ?thesis by (simp add: canonical.simps)
  next
    case False
    show ?thesis
    proof (cases "even m")
      case True
      then obtain k where k: "m = 2 * k" by (elim evenE)
      have "valof (canonical m e) = valof (canonical (m div 2) (e + 1))"
        using False True by (subst canonical.simps) simp
      also have "\<dots> = of_int (m div 2) * 2 powi (e + 1)"
        using 1 False True by simp
      also have "\<dots> = of_int m * 2 powi e"
        using k by (simp add: power_int_add)
      finally show ?thesis .
    next
      case odd: False
      then show ?thesis using False by (subst canonical.simps) simp
    qed
  qed
qed

lemma canonical_finite: "isFinite (canonical m e)"
  by (induction m e rule: canonical.induct) (subst canonical.simps, simp)

lemma canonical_zero_iff: "canonical m e = Val 0 0 \<longleftrightarrow> m = 0"
proof (induction m e rule: canonical.induct)
  case (1 m e)
  show ?case
  proof (cases "m = 0")
    case True
    then show ?thesis by (simp add: canonical.simps)
  next
    case False
    show ?thesis
    proof (cases "even m")
      case True
      then have "m div 2 \<noteq> 0" using False by (auto elim!: evenE)
      then show ?thesis using 1 False True by (subst canonical.simps) simp
    next
      case odd: False
      then show ?thesis using False by (subst canonical.simps) auto
    qed
  qed
qed

lemma valof_aligned:
  assumes "e0 \<le> e"
  shows "of_int (aligned m e e0) * 2 powi e0 = (of_int m * 2 powi e :: real)"
proof -
  have "(2::real) powi e = 2 powi (e - e0) * 2 powi e0"
    by (simp flip: power_int_add)
  moreover have "(2::real) powi (e - e0) = 2 ^ nat (e - e0)"
    using assms by (simp add: power_int_def)
  ultimately show ?thesis by (simp add: aligned_def)
qed

lemma lt_Val: "lt (Val m1 e1) (Val m2 e2) \<longleftrightarrow> valof (Val m1 e1) < valof (Val m2 e2)"
proof -
  let ?e = "min e1 e2"
  have p: "(0::real) < 2 powi ?e" by simp
  have "aligned m1 e1 ?e < aligned m2 e2 ?e \<longleftrightarrow>
        (of_int (aligned m1 e1 ?e) :: real) * 2 powi ?e < of_int (aligned m2 e2 ?e) * 2 powi ?e"
    using p by (simp only: mult_less_cancel_right_pos of_int_less_iff)
  then show ?thesis by (simp add: valof_aligned)
qed

lemma le_Val: "le (Val m1 e1) (Val m2 e2) \<longleftrightarrow> valof (Val m1 e1) \<le> valof (Val m2 e2)"
proof -
  let ?e = "min e1 e2"
  have p: "(0::real) < 2 powi ?e" by simp
  have "aligned m1 e1 ?e \<le> aligned m2 e2 ?e \<longleftrightarrow>
        (of_int (aligned m1 e1 ?e) :: real) * 2 powi ?e \<le> of_int (aligned m2 e2 ?e) * 2 powi ?e"
    using p by (simp only: mult_le_cancel_right_pos of_int_le_iff)
  then show ?thesis by (simp add: valof_aligned)
qed

lemma double_cases: "(\<exists>m' e'. canonical m e = Val m' e')"
  using canonical_finite [of m e] by (cases "canonical m e") auto

lemma finish_cases:
  "finish m e = canonical m e \<and> \<not> (m \<noteq> 0 \<and> 1024 < bitlen \<bar>m\<bar> + e) \<or>
   finish m e = signed_inf (0 < m) \<and> m \<noteq> 0 \<and> 1024 < bitlen \<bar>m\<bar> + e"
  by (simp add: finish_def)

lemma finish_not_NaN: "finish m e \<noteq> NaN"
  using canonical_finite [of m e]
  by (cases "canonical m e") (auto simp: finish_def signed_inf_def)

lemma double_of_not_NaN: "double_of m e \<noteq> NaN"
  by (simp add: double_of_def Let_def finish_not_NaN)

lemma round_even_error:
  assumes "0 < s" "0 \<le> a"
  shows "\<bar>round_even a s * 2 ^ s - a\<bar> \<le> 2 ^ (s - 1) \<and> 0 \<le> round_even a s"
proof -
  define q where "q = a div 2 ^ s"
  define r where "r = a mod 2 ^ s"
  have a: "a = q * 2 ^ s + r" unfolding q_def r_def by (rule div_mult_mod_eq [symmetric])
  have r: "0 \<le> r" "r < 2 ^ s" by (simp_all add: r_def)
  have q: "0 \<le> q" using assms by (simp add: q_def pos_imp_zdiv_nonneg_iff)
  have h: "(2::int) ^ s = 2 * 2 ^ (s - 1)"
    using assms by (cases s) simp_all
  show ?thesis
  proof (cases "2 ^ (s - 1) < r \<or> (r = 2 ^ (s - 1) \<and> odd q)")
    case True
    then have re: "round_even a s = q + 1"
      by (simp add: round_even_def q_def r_def Let_def)
    have "(q + 1) * 2 ^ s - a = 2 ^ s - r" by (simp add: a algebra_simps)
    then show ?thesis using True r h q unfolding re by auto
  next
    case False
    then have re: "round_even a s = q"
      by (simp add: round_even_def q_def r_def Let_def)
    have "q * 2 ^ s - a = - r" by (simp add: a)
    then show ?thesis using False r q unfolding re by auto
  qed
qed

lemma round_even_upper:
  assumes "0 < s" "0 \<le> a" "a < 2 ^ (s + k)"
  shows "round_even a s \<le> 2 ^ k"
proof -
  have "0 \<le> a mod 2 ^ s" by simp
  then have "a div 2 ^ s * 2 ^ s \<le> a"
    using div_mult_mod_eq [of a "2 ^ s"] by linarith
  also have "a < 2 ^ k * 2 ^ s" using assms by (simp add: power_add mult.commute)
  finally have "a div 2 ^ s < 2 ^ k" by simp
  then have "a div 2 ^ s + 1 \<le> 2 ^ k" by simp
  then show ?thesis by (auto simp: round_even_def Let_def)
qed


lemma magnitude_bounds:
  assumes "m \<noteq> 0"
  shows "2 powi (bitlen \<bar>m\<bar> - 1 + e) \<le> \<bar>of_int m * 2 powi e :: real\<bar>"
    and "\<bar>of_int m * 2 powi e :: real\<bar> < 2 powi (bitlen \<bar>m\<bar> + e)"
proof -
  let ?n = "bitlen \<bar>m\<bar>"
  from assms have pos: "0 < \<bar>m\<bar>" by simp
  from bitlen_bounds [OF pos] have b: "2 ^ nat (?n - 1) \<le> \<bar>m\<bar>" "\<bar>m\<bar> < 2 ^ nat ?n" by simp_all
  have n1: "1 \<le> ?n" using pos by (simp add: bitlen_alt_def)
  have l: "(2::real) powi (?n - 1) \<le> of_int \<bar>m\<bar>"
  proof -
    have "(2::real) powi (?n - 1) = 2 ^ nat (?n - 1)" using n1 by (simp add: power_int_def)
    also have "\<dots> = of_int (2 ^ nat (?n - 1))" by simp
    also have "\<dots> \<le> of_int \<bar>m\<bar>" using b(1) by (simp only: of_int_le_iff)
    finally show ?thesis .
  qed
  have u: "of_int \<bar>m\<bar> < (2::real) powi ?n"
  proof -
    have "of_int \<bar>m\<bar> < (of_int (2 ^ nat ?n) :: real)" using b(2) by (simp only: of_int_less_iff)
    also have "\<dots> = 2 powi ?n" using n1 by (simp add: power_int_def)
    finally show ?thesis .
  qed
  have abs: "\<bar>of_int m * 2 powi e :: real\<bar> = of_int \<bar>m\<bar> * 2 powi e"
    by (simp add: abs_mult)
  have "(2::real) powi (?n - 1 + e) = 2 powi (?n - 1) * 2 powi e" by (simp add: power_int_add)
  also have "\<dots> \<le> of_int \<bar>m\<bar> * 2 powi e" using l by (simp add: mult_right_mono)
  finally show "2 powi (?n - 1 + e) \<le> \<bar>of_int m * 2 powi e :: real\<bar>" by (simp only: abs)
  have "of_int \<bar>m\<bar> * 2 powi e < (2::real) powi ?n * 2 powi e"
    using u by (simp add: mult_strict_right_mono)
  also have "\<dots> = 2 powi (?n + e)" by (simp add: power_int_add)
  finally show "\<bar>of_int m * 2 powi e :: real\<bar> < 2 powi (?n + e)" by (simp only: abs)
qed

lemma powi_less_D: "(2::real) powi a < 2 powi b \<Longrightarrow> a < b"
  using power_int_increasing [of b a "2::real"] by (cases "a < b") auto

lemma powi_le_D: "(2::real) powi a \<le> 2 powi b \<Longrightarrow> a \<le> b"
  using power_int_strict_increasing [of b a "2::real"] by (cases "a \<le> b") auto

lemma finish_valof:
  assumes "\<not> (m \<noteq> 0 \<and> 1024 < bitlen \<bar>m\<bar> + e)"
  shows "isFinite (finish m e) \<and> valof (finish m e) = of_int m * 2 powi e"
  using assms by (auto simp: finish_def canonical_finite valof_canonical)

lemma powi_add: "(2::real) powi (a + b) = 2 powi a * 2 powi b"
  by (simp add: power_int_add)

lemma powi_shift:
  assumes "a + b = c + d"
  shows "(2::real) powi a * 2 powi b = 2 powi c * 2 powi d"
  using assms by (simp only: flip: powi_add)

lemma of_int_pow2:
  assumes "int k = i"
  shows "(of_int (2 ^ k) :: real) = 2 powi i"
  using assms by (metis of_int_numeral of_int_power power_int_of_nat)

lemma bitlen_upper:
  assumes "0 \<le> q" "q \<le> 2 ^ k"
  shows "bitlen q \<le> int k + 1"
proof -
  have "(0::int) < 2 ^ k" by simp
  with assms have "q < 2 * 2 ^ k" by linarith
  then have "q < 2 ^ nat (int k + 1)" by (simp add: nat_add_distrib)
  then show ?thesis by (simp add: bitlen_le_iff_power)
qed

lemma double_of_rel:
  fixes x :: real
  assumes x: "x = of_int m * 2 powi e"
    and lo: "2 powi (- 1022) \<le> \<bar>x\<bar>"
    and hi: "\<bar>x\<bar> < 2 powi 1023"
  shows "isFinite (double_of m e) \<and> \<bar>valof (double_of m e) - x\<bar> \<le> \<bar>x\<bar> * 2 powi (- 53)"
proof -
  let ?n = "bitlen \<bar>m\<bar>"
  have m0: "m \<noteq> 0"
  proof
    assume "m = 0"
    then have "\<bar>x\<bar> = 0" by (simp add: x)
    with lo show False by simp
  qed
  note mb = magnitude_bounds [OF m0, of e, folded x]
  have ne_hi: "?n + e \<le> 1023"
  proof -
    from mb(1) hi have "(2::real) powi (?n - 1 + e) < 2 powi 1023" by linarith
    from powi_less_D [OF this] show ?thesis by simp
  qed
  have ne_lo: "- 1022 < ?n + e"
  proof -
    from mb(2) lo have "(2::real) powi (- 1022) < 2 powi (?n + e)" by linarith
    from powi_less_D [OF this] show ?thesis .
  qed
  have s: "max (?n - 53) (- 1074 - e) = ?n - 53" using ne_lo by simp
  show ?thesis
  proof (cases "?n - 53 \<le> 0")
    case True
    then have d: "double_of m e = finish m e" by (simp add: double_of_def Let_def s)
    have "\<not> (m \<noteq> 0 \<and> 1024 < ?n + e)" using ne_hi by simp
    from finish_valof [OF this] show ?thesis unfolding d by (simp add: x)
  next
    case False
    define s where "s = nat (?n - 53)"
    have s0: "0 < s" and si: "int s = ?n - 53" using False by (simp_all add: s_def)
    define q where "q = round_even \<bar>m\<bar> s"
    have d: "double_of m e = finish (sgn m * q) (e + int s)"
      using False by (simp add: double_of_def Let_def \<open>max (?n - 53) (- 1074 - e) = ?n - 53\<close> q_def s_def)
    from round_even_error [OF s0, of "\<bar>m\<bar>"]
    have err: "\<bar>q * 2 ^ s - \<bar>m\<bar>\<bar> \<le> 2 ^ (s - 1)" and q0: "0 \<le> q" by (simp_all add: q_def)
    have mlt: "\<bar>m\<bar> < 2 ^ (s + 53)"
    proof -
      have "\<bar>m\<bar> < 2 ^ nat ?n" using bitlen_bounds [of "\<bar>m\<bar>"] m0 by simp
      moreover have "nat ?n = s + 53" using si by simp
      ultimately show ?thesis by simp
    qed
    from round_even_upper [OF s0 _ mlt] have qu: "q \<le> 2 ^ 53" by (simp add: q_def)
    have bq: "bitlen \<bar>sgn m * q\<bar> \<le> 54"
    proof -
      have "\<bar>sgn m * q\<bar> = q" using m0 q0 by (simp add: abs_mult)
      then show ?thesis using bitlen_upper [OF q0 qu] by simp
    qed
    have "\<not> (sgn m * q \<noteq> 0 \<and> 1024 < bitlen \<bar>sgn m * q\<bar> + (e + int s))"
      using bq ne_hi si by simp
    from finish_valof [OF this]
    have fin: "isFinite (double_of m e)"
      and v: "valof (double_of m e) = of_int (sgn m * q) * 2 powi (e + int s)"
      unfolding d by simp_all
    have p2: "(2::real) powi (e + int s) = 2 ^ s * 2 powi e"
      by (simp add: power_int_add)
    define k where "k = sgn m * q * 2 ^ s - m"
    have "valof (double_of m e) - x = of_int k * 2 powi e"
      by (simp add: k_def v p2 x algebra_simps)
    then have "\<bar>valof (double_of m e) - x\<bar> = of_int \<bar>k\<bar> * 2 powi e"
      by (simp add: abs_mult)
    moreover have "\<bar>k\<bar> = \<bar>q * 2 ^ s - \<bar>m\<bar>\<bar>"
    proof (cases "0 < m")
      case True
      then show ?thesis by (simp add: k_def)
    next
      case False
      with m0 have "m < 0" by simp
      then show ?thesis by (simp add: k_def abs_if)
    qed
    ultimately have "\<bar>valof (double_of m e) - x\<bar> = of_int \<bar>q * 2 ^ s - \<bar>m\<bar>\<bar> * 2 powi e"
      by simp
    also have "\<dots> \<le> of_int (2 ^ (s - 1)) * 2 powi e"
      using err by (intro mult_right_mono) (simp_all only: of_int_le_iff, simp)
    also have "\<dots> = 2 powi (?n - 1 + e) * 2 powi (- 53)"
    proof -
      have "int (s - 1) = ?n - 54" using si s0 by simp
      then have "(of_int (2 ^ (s - 1)) :: real) = 2 powi (?n - 54)"
        by (rule of_int_pow2)
      moreover have "(2::real) powi (?n - 54) * 2 powi e = 2 powi (?n - 1 + e) * 2 powi (- 53)"
        by (rule powi_shift) simp
      ultimately show ?thesis by (simp only:)
    qed
    also have "\<dots> \<le> \<bar>x\<bar> * 2 powi (- 53)"
      using mb(1) by (intro mult_right_mono) simp_all
    finally show ?thesis using fin by simp
  qed
qed

lemma double_of_zero:
  assumes "double_of m e = Val 0 0"
  shows "\<bar>of_int m * 2 powi e :: real\<bar> \<le> 2 powi (- 1075)"
proof (cases "m = 0")
  case True
  then show ?thesis by simp
next
  case m0: False
  let ?n = "bitlen \<bar>m\<bar>"
  define t where "t = max (?n - 53) (- 1074 - e)"
  have tc: "t = ?n - 53 \<or> t = - 1074 - e" by (auto simp: t_def max_def)
  have fz: "finish k e' = Val 0 0 \<Longrightarrow> k = 0" for k e'
    by (auto simp: finish_def signed_inf_def canonical_zero_iff split: if_splits)
  show ?thesis
  proof (cases "t \<le> 0")
    case True
    then have "double_of m e = finish m e" by (simp add: double_of_def Let_def flip: t_def)
    with assms fz m0 show ?thesis by auto
  next
    case False
    define s where "s = nat t"
    have s0: "0 < s" and si: "int s = t" using False by (simp_all add: s_def)
    have "double_of m e = finish (sgn m * round_even \<bar>m\<bar> s) (e + t)"
      using False by (simp add: double_of_def Let_def s_def flip: t_def)
    with assms have "finish (sgn m * round_even \<bar>m\<bar> s) (e + t) = Val 0 0" by simp
    from fz [OF this] m0 have r0: "round_even \<bar>m\<bar> s = 0" by (simp add: sgn_if split: if_splits)
    from round_even_error [OF s0, of "\<bar>m\<bar>"] r0
    have small: "\<bar>m\<bar> \<le> 2 ^ (s - 1)" by simp
    have "2 ^ nat (?n - 1) \<le> \<bar>m\<bar>" using bitlen_bounds [of "\<bar>m\<bar>"] m0 by simp
    with small have "(2::int) ^ nat (?n - 1) \<le> 2 ^ (s - 1)" by linarith
    then have "nat (?n - 1) \<le> s - 1" by simp
    moreover have "1 \<le> ?n" using m0 by (simp add: bitlen_alt_def)
    ultimately have "?n \<le> int s" using s0 by linarith
    with si tc have se: "int s = - 1074 - e" by linarith
    have "\<bar>of_int m * 2 powi e :: real\<bar> = of_int \<bar>m\<bar> * 2 powi e" by (simp add: abs_mult)
    also have "\<dots> \<le> of_int (2 ^ (s - 1)) * 2 powi e"
      using small by (intro mult_right_mono) (simp_all only: of_int_le_iff, simp)
    also have "\<dots> = 2 powi (- 1075)"
    proof -
      have "int (s - 1) = - 1075 - e" using se s0 by simp
      then have "(of_int (2 ^ (s - 1)) :: real) = 2 powi (- 1075 - e)"
        by (rule of_int_pow2)
      moreover have "(2::real) powi (- 1075 - e) * 2 powi e = 2 powi (- 1075) * 2 powi 0"
        by (rule powi_shift) simp
      ultimately show ?thesis by (simp only: power_int_0_right mult_1_right)
    qed
    finally show ?thesis .
  qed
qed

lemma mul_rel:
  fixes x :: real
  assumes x: "x = valof (Val m1 e1) * valof (Val m2 e2)"
    and lo: "2 powi (- 1022) \<le> \<bar>x\<bar>" and hi: "\<bar>x\<bar> < 2 powi 1023"
  shows "isFinite (mul (Val m1 e1) (Val m2 e2)) \<and>
         \<bar>valof (mul (Val m1 e1) (Val m2 e2)) - x\<bar> \<le> \<bar>x\<bar> * 2 powi (- 53)"
proof -
  have "x = of_int (m1 * m2) * 2 powi (e1 + e2)"
    by (simp add: x power_int_add)
  from double_of_rel [OF this lo hi] show ?thesis by simp
qed

lemma add_rel:
  fixes x :: real
  assumes x: "x = valof (Val m1 e1) + valof (Val m2 e2)"
    and lo: "2 powi (- 1022) \<le> \<bar>x\<bar>" and hi: "\<bar>x\<bar> < 2 powi 1023"
  shows "isFinite (add (Val m1 e1) (Val m2 e2)) \<and>
         \<bar>valof (add (Val m1 e1) (Val m2 e2)) - x\<bar> \<le> \<bar>x\<bar> * 2 powi (- 53)"
proof -
  let ?e = "min e1 e2"
  have "x = of_int (aligned m1 e1 ?e + aligned m2 e2 ?e) * 2 powi ?e"
    using valof_aligned [of ?e e1 m1] valof_aligned [of ?e e2 m2]
    by (simp add: x algebra_simps)
  from double_of_rel [OF this lo hi] show ?thesis by simp
qed

lemma quotient_rel:
  fixes x :: real
  assumes m2: "m2 \<noteq> 0"
    and x: "x = valof (Val m1 e1) / valof (Val m2 e2)"
    and lo: "2 powi (- 1021) \<le> \<bar>x\<bar>" and hi: "\<bar>x\<bar> \<le> 2 powi 1022"
  shows "isFinite (quotient m1 e1 m2 e2) \<and>
         \<bar>valof (quotient m1 e1 m2 e2) - x\<bar> \<le> \<bar>x\<bar> * 2 powi (- 52)"
proof -
  define k where "k = nat (bitlen \<bar>m2\<bar>) + 55"
  define n where "n = \<bar>m1\<bar> * 2 ^ k"
  define d where "d = \<bar>m2\<bar>"
  define q where "q = n div d"
  define r where "r = n mod d"
  define st :: int where "st = (if r = 0 then 0 else 1)"
  define m' where "m' = sgn m1 * sgn m2 * (2 * q + st)"
  define e' where "e' = e1 - e2 - int k - 1"
  define x' :: real where "x' = of_int m' * 2 powi e'"
  have quot: "quotient m1 e1 m2 e2 = double_of m' e'"
    by (simp add: quotient_def Let_def k_def n_def d_def q_def r_def st_def m'_def e'_def)
  have m1: "m1 \<noteq> 0"
  proof
    assume "m1 = 0"
    then have "\<bar>x\<bar> = 0" by (simp add: x)
    with lo show False by simp
  qed
  have d0: "0 < d" using m2 by (simp add: d_def)
  have n0: "0 < n" using m1 by (simp add: n_def)
  have nd: "n = q * d + r" unfolding q_def r_def by (rule div_mult_mod_eq [symmetric])
  have r: "0 \<le> r" "r < d" using d0 by (simp_all add: r_def)
  have q0: "0 \<le> q" using n0 d0 by (simp add: q_def pos_imp_zdiv_nonneg_iff)
  \<comment> \<open>the exact quotient of the magnitudes, in units of \<open>2 powi e'\<close>\<close>
  define Q :: real where "Q = 2 * of_int n / of_int d"
  have absx: "\<bar>x\<bar> = Q * 2 powi e'"
  proof -
    have "\<bar>x\<bar> = (of_int \<bar>m1\<bar> * 2 powi e1) / (of_int \<bar>m2\<bar> * 2 powi e2)"
      by (simp add: x abs_mult)
    also have "\<dots> = (of_int \<bar>m1\<bar> / of_int d) * (2 powi e1 / 2 powi e2)"
      by (simp add: d_def)
    also have "(2::real) powi e1 / 2 powi e2 = 2 powi (e1 - e2)"
      by (simp add: power_int_diff)
    also have "(2::real) powi (e1 - e2) = 2 powi (int k + 1) * 2 powi e'"
      unfolding e'_def by (simp only: flip: powi_add) simp
    also have "(2::real) powi (int k + 1) = 2 * 2 ^ k"
      by (simp add: power_int_add)
    finally show ?thesis by (simp add: Q_def n_def)
  qed
  have absx': "\<bar>x'\<bar> = of_int (2 * q + st) * 2 powi e'"
  proof -
    have "0 \<le> 2 * q + st" using q0 by (simp add: st_def)
    moreover have "\<bar>sgn m1 * sgn m2\<bar> = 1" using m1 m2 by (simp add: abs_mult)
    ultimately have "\<bar>m'\<bar> = 2 * q + st" by (simp add: m'_def abs_mult)
    then show ?thesis by (simp add: x'_def abs_mult flip: of_int_abs)
  qed
  have Qq: "\<bar>of_int (2 * q + st) - Q\<bar> \<le> 1"
  proof -
    have dr: "(0::real) < of_int d" using d0 by simp
    have "Q = 2 * of_int q + 2 * of_int r / of_int d"
      using dr by (simp add: Q_def nd field_simps)
    moreover have "0 \<le> 2 * of_int r / (of_int d :: real)" using r dr by simp
    moreover have "2 * of_int r / (of_int d :: real) < 2" using r dr by (simp add: field_simps)
    moreover have "r = 0 \<Longrightarrow> of_int st = (0::real)" by (simp add: st_def)
    moreover have "r \<noteq> 0 \<Longrightarrow> of_int st = (1::real) \<and> 0 < 2 * of_int r / (of_int d :: real)"
      using r dr by (simp add: st_def)
    ultimately show ?thesis by (cases "r = 0") (auto simp: abs_le_iff)
  qed
  have Qbig: "2 powi 56 \<le> Q"
  proof -
    have "d < 2 ^ nat (bitlen d)" using bitlen_bounds [OF d0] by simp
    then have "d * 2 ^ 55 < 2 ^ nat (bitlen d) * 2 ^ 55" by simp
    also have "\<dots> = 2 ^ k" by (simp add: k_def d_def power_add)
    also have "\<dots> \<le> n" using m1 by (simp add: n_def)
    finally have "d * 2 ^ 55 < n" .
    then have "(of_int (d * 2 ^ 55) :: real) < of_int n" by (simp only: of_int_less_iff)
    then have "(of_int d :: real) * 2 ^ 56 < 2 * of_int n" by simp
    then have "(2::real) ^ 56 < Q" using d0 by (simp add: Q_def field_simps)
    then show ?thesis by simp
  qed
  have Qpos: "0 < Q" using Qbig zero_less_power_int [of "2::real" 56] by linarith
  \<comment> \<open>the sign of the quotient\<close>
  have diff: "\<bar>x' - x\<bar> = \<bar>\<bar>x'\<bar> - \<bar>x\<bar>\<bar>"
  proof -
    define sg :: real where "sg = of_int (sgn m1 * sgn m2)"
    have sg: "\<bar>sg\<bar> = 1" using m1 m2 by (simp add: sg_def sgn_if)
    have sx: "x = sg * \<bar>x\<bar>"
      using m1 m2 unfolding sg_def
      by (cases "0 < m1"; cases "0 < m2") (simp_all add: x abs_mult sgn_if)
    have "x' = sg * (of_int (2 * q + st) * 2 powi e')"
      by (simp add: x'_def m'_def sg_def)
    also have "of_int (2 * q + st) * 2 powi e' = \<bar>x'\<bar>" by (rule absx' [symmetric])
    finally have sx': "x' = sg * \<bar>x'\<bar>" .
    have "x' - x = sg * (\<bar>x'\<bar> - \<bar>x\<bar>)"
      using sx sx' by (simp add: algebra_simps)
    then have "\<bar>x' - x\<bar> = \<bar>sg\<bar> * \<bar>\<bar>x'\<bar> - \<bar>x\<bar>\<bar>" by (simp only: abs_mult)
    then show ?thesis by (simp add: sg)
  qed
  have close: "\<bar>x' - x\<bar> \<le> \<bar>x\<bar> * 2 powi (- 56)"
  proof -
    have "\<bar>\<bar>x'\<bar> - \<bar>x\<bar>\<bar> = \<bar>of_int (2 * q + st) - Q\<bar> * 2 powi e'"
      by (simp add: absx absx' abs_mult flip: left_diff_distrib)
    also have "\<dots> \<le> 1 * 2 powi e'" using Qq by (intro mult_right_mono) simp_all
    also have "\<dots> \<le> (Q * 2 powi (- 56)) * 2 powi e'"
    proof (intro mult_right_mono)
      have "1 = (2::real) powi 56 * 2 powi (- 56)" by simp
      also have "\<dots> \<le> Q * 2 powi (- 56)" using Qbig by (intro mult_right_mono) simp_all
      finally show "1 \<le> Q * 2 powi (- 56)" .
    qed simp
    also have "\<dots> = \<bar>x\<bar> * 2 powi (- 56)" by (simp add: absx)
    finally show ?thesis by (simp only: diff)
  qed
  define a where "a = \<bar>x\<bar>"
  have a0: "0 < a" using absx Qpos by (simp add: a_def)
  have ax': "\<bar>\<bar>x'\<bar> - a\<bar> \<le> a * 2 powi (- 56)" using close diff by (simp add: a_def)
  have lo': "2 powi (- 1022) \<le> \<bar>x'\<bar>"
  proof -
    have "(2::real) powi (- 1022) = 2 powi (- 1021) * (1 / 2)" by (simp add: power_int_minus_divide)
    also have "\<dots> \<le> a * (1 / 2)" using lo by (simp add: a_def)
    also have "\<dots> \<le> a - a * 2 powi (- 56)" using a0 by (simp add: power_int_minus_divide)
    also have "\<dots> \<le> \<bar>x'\<bar>" using ax' by linarith
    finally show ?thesis .
  qed
  have hi': "\<bar>x'\<bar> < 2 powi 1023"
  proof -
    have "\<bar>x'\<bar> \<le> a + a * 2 powi (- 56)" using ax' by linarith
    also have "\<dots> < a * 2" using a0 by (simp add: power_int_minus_divide)
    also have "\<dots> \<le> 2 powi 1022 * 2" using hi by (simp add: a_def)
    also have "\<dots> = 2 powi 1023" by simp
    finally show ?thesis .
  qed
  from double_of_rel [OF x'_def lo' hi']
  have fin: "isFinite (double_of m' e')"
    and rd: "\<bar>valof (double_of m' e') - x'\<bar> \<le> \<bar>x'\<bar> * 2 powi (- 53)" by simp_all
  have "\<bar>valof (double_of m' e') - x\<bar> \<le> \<bar>valof (double_of m' e') - x'\<bar> + \<bar>x' - x\<bar>" by linarith
  also have "\<dots> \<le> \<bar>x'\<bar> * 2 powi (- 53) + a * 2 powi (- 56)"
    using rd close by (simp add: a_def)
  also have "\<dots> \<le> (a + a * 2 powi (- 56)) * 2 powi (- 53) + a * 2 powi (- 56)"
  proof -
    have "\<bar>x'\<bar> \<le> a + a * 2 powi (- 56)" using ax' by linarith
    then have "\<bar>x'\<bar> * 2 powi (- 53) \<le> (a + a * 2 powi (- 56)) * 2 powi (- 53)"
      by (intro mult_right_mono) simp_all
    then show ?thesis by simp
  qed
  also have "\<dots> = a * ((1 + 2 powi (- 56)) * 2 powi (- 53) + 2 powi (- 56))"
    by (simp add: algebra_simps)
  also have "\<dots> \<le> a * 2 powi (- 52)"
    using a0 by (intro mult_left_mono) (simp_all add: power_int_minus_divide)
  finally show ?thesis using fin by (simp add: quot a_def)
qed








section \<open>Properties of paying users\<close>

text \<open>
  The validation loop finds an offending entry exactly when there is one.
\<close>

lemma checkPayouts_Some_iff:
  "(\<exists>err. checkPayouts ps = Some err) \<longleftrightarrow> (\<exists>e\<in>set ps. nonFiniteEntry e)"
  by (induction ps) (auto simp: nonFiniteEntry_def split: option.splits)


lemma payUsers_throws_iff:
  "(\<exists>err. fst (payUsers t ps) = Threw err) \<longleftrightarrow> (\<exists>e\<in>set ps. nonFiniteEntry e)"
  using checkPayouts_Some_iff [of ps]
  by (auto simp: payUsers_def checkAndMergePayouts_def split: option.splits)

lemma payUsers_throw_keeps: "fst (payUsers t ps) = Threw err \<Longrightarrow> snd (payUsers t ps) = t"
  by (auto simp: payUsers_def split: sum.splits)

text \<open>
  Claim C1. The money-moving operations reject non-finite values and fail closed:
  \<^verbatim>\<open>payUser\<close> throws exactly when its payout is not finite; \<^verbatim>\<open>payUsers\<close> throws
  whenever an entry of its list has a non-finite payout or a defined non-finite deposit;
  and a call that throws has issued no balance update, since the whole list is validated
  before the first \<^verbatim>\<open>updateUserBalance\<close>.
\<close>

theorem payments_fail_closed:
  "((\<exists>err. fst (payUser t uid p isDep) = Threw err) \<longleftrightarrow> \<not> isFinite p) \<and>
   ((\<exists>e\<in>set ps. nonFiniteEntry e) \<longrightarrow> (\<exists>err. payUsers t ps = (Threw err, t))) \<and>
   (fst (payUser t uid p isDep) = Threw err1 \<longrightarrow> snd (payUser t uid p isDep) = t) \<and>
   (fst (payUsers t ps) = Threw err2 \<longrightarrow> snd (payUsers t ps) = t)"
proof (intro conjI impI)
  show "(\<exists>err. fst (payUser t uid p isDep) = Threw err) \<longleftrightarrow> \<not> isFinite p"
    by (simp add: payUser_def)
next
  assume "\<exists>e\<in>set ps. nonFiniteEntry e"
  then obtain err where "fst (payUsers t ps) = Threw err"
    using payUsers_throws_iff by blast
  then show "\<exists>err. payUsers t ps = (Threw err, t)"
    using payUsers_throw_keeps [of t ps err] by (metis prod.collapse)
next
  assume "fst (payUser t uid p isDep) = Threw err1"
  then show "snd (payUser t uid p isDep) = t"
    by (simp add: payUser_def split: if_splits)
next
  assume "fst (payUsers t ps) = Threw err2"
  then show "snd (payUsers t ps) = t" by (rule payUsers_throw_keeps)
qed

theorem payments_fail_closed_witness:
  "\<not> isFinite Infinity \<and>
   payUser [] ''alice'' Infinity False = (Threw (PayoutNotFinite Infinity), []) \<and>
   nonFiniteEntry \<lparr>userId = ''bob'', payout = ofInt 1, deposit = Some NaN\<rparr> \<and>
   payUsers [] [\<lparr>userId = ''alice'', payout = ofInt 5, deposit = None\<rparr>,
                \<lparr>userId = ''bob'', payout = ofInt 1, deposit = Some NaN\<rparr>] =
     (Threw (DepositNotFinite NaN), [])"
proof -
  have f: "isFinite (ofInt 5)" "isFinite (ofInt 1)" by code_simp+
  show ?thesis
    using payments_fail_closed [of "[]" "''alice''" Infinity False
      "[\<lparr>userId = ''alice'', payout = ofInt 5, deposit = None\<rparr>,
        \<lparr>userId = ''bob'', payout = ofInt 1, deposit = Some NaN\<rparr>]"
      "PayoutNotFinite Infinity" "DepositNotFinite NaN"] f
    by (simp add: nonFiniteEntry_def payUser_def payUsers_def checkAndMergePayouts_def)
qed

















section \<open>Properties of the limit order panel\<close>

text \<open>
  A typed limit that is a number is divided by 100 and clamped into
  \<open>[0.001, 0.999]\<close>; a \<^verbatim>\<open>NaN\<close> limit stays \<^verbatim>\<open>NaN\<close>.
\<close>

lemma le_refl_Val: "le (Val m e) (Val m e)"
  by simp

lemma clamp_limit_range:
  assumes "x \<noteq> NaN"
  shows "isFinite (clamp x (decimal 1 1000) (decimal 999 1000)) \<and>
         le (decimal 1 1000) (clamp x (decimal 1 1000) (decimal 999 1000)) \<and>
         le (clamp x (decimal 1 1000) (decimal 999 1000)) (decimal 999 1000)"
proof -
  have lohi: "le (Val 1152921504606847 (- 60)) (Val 8998192055486251 (- 53))"
    by (simp add: aligned_def)
  show ?thesis
    using assms lohi le_refl_Val unfolding decimal_lo decimal_hi
    by (cases x) (auto simp: clamp_def ge_def Let_def ofInt_0 simp del: le.simps(1))
qed

lemma clamp_limit_NaN: "clamp NaN lower upper = NaN"
  by (simp add: clamp_def Let_def)

lemma quotient_not_NaN: "quotient m1 e1 m2 e2 \<noteq> NaN"
  by (simp add: quotient_def Let_def double_of_not_NaN)

lemma divide_100_NaN: "divide_num l (ofInt 100) = NaN \<longleftrightarrow> l = NaN"
  unfolding ofInt_100 by (cases l) (auto simp: signed_inf_def quotient_not_NaN)

lemma limit_prob_cases:
  "clamp (divide_num l (ofInt 100)) (decimal 1 1000) (decimal 999 1000) = NaN \<and> l = NaN \<or>
   l \<noteq> NaN \<and>
   isFinite (clamp (divide_num l (ofInt 100)) (decimal 1 1000) (decimal 999 1000)) \<and>
   le (decimal 1 1000) (clamp (divide_num l (ofInt 100)) (decimal 1 1000) (decimal 999 1000)) \<and>
   le (clamp (divide_num l (ofInt 100)) (decimal 1 1000) (decimal 999 1000)) (decimal 999 1000)"
proof (cases "l = NaN")
  case True
  then show ?thesis by (simp add: clamp_limit_NaN)
next
  case False
  then have "divide_num l (ofInt 100) \<noteq> NaN" by (simp add: divide_100_NaN)
  from clamp_limit_range [OF this] False show ?thesis by blast
qed

lemma yesLimitProb_cases:
  assumes "yesLimitProb st = Some y"
  shows "y = NaN \<and> lowLimitProb st = Some NaN \<or>
         lowLimitProb st \<noteq> Some NaN \<and>
         isFinite y \<and> le (decimal 1 1000) y \<and> le y (decimal 999 1000)"
proof -
  from assms obtain l where l: "lowLimitProb st = Some l"
    and y: "y = clamp (divide_num l (ofInt 100)) (decimal 1 1000) (decimal 999 1000)"
    by (auto simp: yesLimitProb_def split: option.splits)
  from limit_prob_cases [of l] show ?thesis unfolding y l by auto
qed

lemma noLimitProb_cases:
  assumes "noLimitProb st = Some n"
  shows "n = NaN \<and> highLimitProb st = Some NaN \<or>
         highLimitProb st \<noteq> Some NaN \<and>
         isFinite n \<and> le (decimal 1 1000) n \<and> le n (decimal 999 1000)"
proof -
  from assms obtain h where h: "highLimitProb st = Some h"
    and n: "n = clamp (divide_num h (ofInt 100)) (decimal 1 1000) (decimal 999 1000)"
    by (auto simp: noLimitProb_def split: option.splits)
  from limit_prob_cases [of h] show ?thesis unfolding n h by auto
qed

text \<open>The value of a limit probability that is a number lies between \<open>2^-10\<close> and \<open>1 - 2^-10\<close>.\<close>

lemma limit_prob_value:
  assumes "isFinite y" "le (decimal 1 1000) y" "le y (decimal 999 1000)"
  shows "2 powi (- 10) \<le> valof y \<and> valof y \<le> 1 - 2 powi (- 10)"
proof -
  from assms(1) obtain m e where y: "y = Val m e" by (cases y) auto
  have lo: "(2::real) powi (- 10) \<le> valof (Val 1152921504606847 (- 60))"
    by (simp add: power_int_minus_divide)
  have hi: "valof (Val 8998192055486251 (- 53)) \<le> 1 - (2::real) powi (- 10)"
    by (simp add: power_int_minus_divide)
  from assms(2,3) have "valof (Val 1152921504606847 (- 60)) \<le> valof y"
    and "valof y \<le> valof (Val 8998192055486251 (- 53))"
    unfolding decimal_lo decimal_hi y le_Val by simp_all
  with lo hi show ?thesis by linarith
qed

lemma one_minus_limit:
  assumes "isFinite n" "le (decimal 1 1000) n" "le n (decimal 999 1000)"
  shows "isFinite (sub (ofInt 1) n) \<and> 2 powi (- 11) \<le> valof (sub (ofInt 1) n) \<and>
         valof (sub (ofInt 1) n) \<le> 2"
proof -
  from assms(1) obtain m e where n: "n = Val m e" by (cases n) auto
  from limit_prob_value [OF assms]
  have v: "2 powi (- 10) \<le> valof n" "valof n \<le> 1 - 2 powi (- 10)" by simp_all
  define x where "x = 1 - valof n"
  have xr: "2 powi (- 10) \<le> x" "x \<le> 1" using v by (simp_all add: x_def)
  have x0: "0 < x" using xr(1) zero_less_power_int [of "2::real" "- 10"] by linarith
  have s: "sub (ofInt 1) n = add (Val 1 0) (Val (- m) e)"
    by (simp add: sub_def ofInt_1 n)
  have xe: "x = valof (Val 1 0) + valof (Val (- m) e)" by (simp add: x_def n)
  have lo: "2 powi (- 1022) \<le> \<bar>x\<bar>"
  proof -
    have "(2::real) powi (- 1022) \<le> 2 powi (- 10)" by (rule power_int_increasing) simp_all
    with xr x0 show ?thesis by simp
  qed
  have hi: "\<bar>x\<bar> < 2 powi 1023"
  proof -
    have "(1::real) < 2 powi 1023" by (rule one_less_power_int) simp_all
    with xr x0 show ?thesis by simp
  qed
  from add_rel [OF xe lo hi]
  have fin: "isFinite (sub (ofInt 1) n)"
    and err: "\<bar>valof (sub (ofInt 1) n) - x\<bar> \<le> \<bar>x\<bar> * 2 powi (- 53)"
    unfolding s by simp_all
  define t where "t = \<bar>x\<bar> * 2 powi (- 53)"
  have small: "(2::real) powi (- 53) \<le> 1 / 2" by (simp add: power_int_minus_divide)
  have "\<bar>x\<bar> * 2 powi (- 53) \<le> \<bar>x\<bar> * (1 / 2)"
    using small by (intro mult_left_mono) simp_all
  then have t: "t \<le> x / 2" using x0 by (simp add: t_def)
  from err have "\<bar>valof (sub (ofInt 1) n) - x\<bar> \<le> t" by (simp only: t_def)
  with t have b: "x / 2 \<le> valof (sub (ofInt 1) n)" "valof (sub (ofInt 1) n) \<le> x + x / 2"
    by linarith+
  have "(2::real) powi (- 11) = 2 powi (- 10) / 2" by (simp add: power_int_minus_divide)
  with b xr fin show ?thesis by simp
qed

lemma Math_min_finite:
  assumes "isFinite a" "isFinite b"
  shows "(Math_min a b = a \<or> Math_min a b = b) \<and>
         valof (Math_min a b) \<le> valof a \<and> valof (Math_min a b) \<le> valof b"
proof -
  from assms obtain m1 e1 m2 e2 where ab: "a = Val m1 e1" "b = Val m2 e2"
    by (cases a; cases b) auto
  show ?thesis unfolding ab using lt_Val [of m2 e2 m1 e1] by (auto simp del: lt.simps valof.simps)
qed

text \<open>
  One side of a two-sided order: the entered amount is divided by the price, the shares
  are at most that quotient, and the order amount is the shares times the price.
\<close>

lemma price_quotient:
  assumes a: "isFinite a" and ar: "2 powi (- 1000) \<le> valof a" "valof a \<le> 2 powi 1000"
    and y: "isFinite y" and yr: "2 powi (- 11) \<le> valof y" "valof y \<le> 2"
  shows "isFinite (divide_num a y) \<and> 2 powi (- 1002) \<le> valof (divide_num a y) \<and>
         valof (divide_num a y) * valof y \<le> valof a * (1 + 2 powi (- 52))"
proof -
  from a y obtain ma ea my ey where reps: "a = Val ma ea" "y = Val my ey"
    by (cases a; cases y) auto
  define A where "A = valof a"
  define Y where "Y = valof y"
  have A0: "0 < A" using ar(1) zero_less_power_int [of "2::real" "- 1000"] unfolding A_def by linarith
  have Y0: "0 < Y" using yr(1) zero_less_power_int [of "2::real" "- 11"] unfolding Y_def by linarith
  have my0: "my \<noteq> 0" using Y0 by (auto simp: Y_def reps)
  define x where "x = A / Y"
  have x0: "0 < x" using A0 Y0 by (simp add: x_def)
  have xlo: "2 powi (- 1001) \<le> x"
  proof -
    have "(2::real) powi (- 1001) = 2 powi (- 1000) / 2" by (simp add: power_int_minus_divide)
    also have "\<dots> \<le> A / 2" using ar(1) by (simp add: A_def)
    also have "\<dots> \<le> A / Y" using A0 Y0 yr(2) by (intro frac_le) (simp_all add: Y_def)
    finally show ?thesis by (simp add: x_def)
  qed
  have xhi: "x \<le> 2 powi 1011"
  proof -
    have "A / Y \<le> 2 powi 1000 / 2 powi (- 11)"
      using ar(2) yr(1) A0 by (intro frac_le) (simp_all add: A_def Y_def)
    also have "\<dots> = (2::real) powi 1011" by (simp add: power_int_minus_divide)
    finally show ?thesis by (simp add: x_def)
  qed
  have "2 powi (- 1021) \<le> \<bar>x\<bar>"
  proof -
    have "(2::real) powi (- 1021) \<le> 2 powi (- 1001)" by (rule power_int_increasing) simp_all
    with xlo x0 show ?thesis by simp
  qed
  moreover have "\<bar>x\<bar> \<le> 2 powi 1022"
  proof -
    have "(2::real) powi 1011 \<le> 2 powi 1022" by (rule power_int_increasing) simp_all
    with xhi x0 show ?thesis by simp
  qed
  moreover have "x = valof (Val ma ea) / valof (Val my ey)"
    by (simp add: x_def A_def Y_def reps)
  ultimately have q: "isFinite (quotient ma ea my ey) \<and>
      \<bar>valof (quotient ma ea my ey) - x\<bar> \<le> \<bar>x\<bar> * 2 powi (- 52)"
    using quotient_rel [OF my0] by blast
  have dq: "divide_num a y = quotient ma ea my ey" using my0 by (simp add: reps)
  define D where "D = valof (divide_num a y)"
  define u52 :: real where "u52 = 2 powi (- 52)"
  have u: "0 < u52" "u52 \<le> 1 / 2"
    by (simp_all add: u52_def power_int_minus_divide)
  have dfin: "isFinite (divide_num a y)" using q by (simp add: dq)
  have derr: "\<bar>D - x\<bar> \<le> x * u52" using q x0 by (simp add: D_def dq u52_def)
  have xu: "x * u52 \<le> x / 2" using x0 u(2) by (simp add: mult_left_mono)
  have Dhi: "D \<le> x * (1 + u52)" using derr by (simp add: abs_le_iff algebra_simps)
  have Dlo: "2 powi (- 1002) \<le> D"
  proof -
    have "(2::real) powi (- 1002) = 2 powi (- 1001) / 2" by (simp add: power_int_minus_divide)
    also have "\<dots> \<le> x / 2" using xlo by simp
    also have "\<dots> \<le> D" using derr xu by linarith
    finally show ?thesis .
  qed
  have "D * Y \<le> (x * (1 + u52)) * Y"
    using Dhi Y0 by (intro mult_right_mono) simp_all
  also have "\<dots> = A * (1 + u52)" using Y0 by (simp add: x_def)
  finally show ?thesis using dfin Dlo by (simp add: A_def D_def Y_def u52_def)
qed

lemma order_amount_bound:
  assumes a: "isFinite a" and ar: "2 powi (- 1000) \<le> valof a" "valof a \<le> 2 powi 1000"
    and y: "isFinite y" and yr: "2 powi (- 11) \<le> valof y" "valof y \<le> 2"
    and s: "isFinite s" and sd: "valof s \<le> valof (divide_num a y)"
    and sl: "2 powi (- 1003) \<le> valof s"
  shows "isFinite (mul s y) \<and> valof (mul s y) \<le> valof a * (1 + 2 powi (- 51))"
proof -
  from y s obtain my ey ms es where reps: "y = Val my ey" "s = Val ms es"
    by (cases y; cases s) auto
  define A where "A = valof a"
  define Y where "Y = valof y"
  define S where "S = valof s"
  define D where "D = valof (divide_num a y)"
  define u52 :: real where "u52 = 2 powi (- 52)"
  define u53 :: real where "u53 = 2 powi (- 53)"
  define u51 :: real where "u51 = 2 powi (- 51)"
  have u: "0 < u52" "u52 \<le> 1 / 2" "0 < u53" "(1 + u52) * (1 + u53) \<le> 1 + u51"
    by (simp_all add: u52_def u53_def u51_def power_int_minus_divide)
  have A0: "0 < A" using ar(1) zero_less_power_int [of "2::real" "- 1000"] unfolding A_def by linarith
  have Y0: "0 < Y" using yr(1) zero_less_power_int [of "2::real" "- 11"] unfolding Y_def by linarith
  have S0: "0 < S" using sl zero_less_power_int [of "2::real" "- 1003"] unfolding S_def by linarith
  from price_quotient [OF a ar y yr]
  have DY: "D * Y \<le> A * (1 + u52)" by (simp add: D_def Y_def A_def u52_def)
  define P where "P = S * Y"
  have P0: "0 < P" using S0 Y0 by (simp add: P_def)
  have Phi: "P \<le> A * (1 + u52)"
  proof -
    have "S * Y \<le> D * Y" using sd Y0 by (intro mult_right_mono) (simp_all add: S_def D_def)
    with DY show ?thesis by (simp add: P_def)
  qed
  have Plo: "2 powi (- 1022) \<le> \<bar>P\<bar>"
  proof -
    have "(2::real) powi (- 1022) \<le> 2 powi (- 1003 + - 11)"
      by (rule power_int_increasing) simp_all
    also have "\<dots> = 2 powi (- 1003) * 2 powi (- 11)" by (rule powi_add)
    also have "\<dots> \<le> S * Y"
      using sl yr(1) by (intro mult_mono) (simp_all add: S_def Y_def)
    finally show ?thesis using P0 by (simp add: P_def)
  qed
  have Pup: "\<bar>P\<bar> < 2 powi 1023"
  proof -
    have "A * (1 + u52) \<le> 2 powi 1000 * 2"
      using ar(2) A0 u by (intro mult_mono) (simp_all add: A_def)
    also have "\<dots> = (2::real) powi 1001" by simp
    also have "\<dots> < 2 powi 1023" by (rule power_int_strict_increasing) simp_all
    finally show ?thesis using Phi P0 by simp
  qed
  have Pe: "P = valof (Val ms es) * valof (Val my ey)" by (simp add: P_def S_def Y_def reps)
  from mul_rel [OF Pe Plo Pup]
  have mfin: "isFinite (mul s y)" and merr: "\<bar>valof (mul s y) - P\<bar> \<le> P * u53"
    using P0 by (simp_all add: reps u53_def)
  have "valof (mul s y) \<le> P * (1 + u53)"
    using merr by (simp add: abs_le_iff algebra_simps)
  also have "\<dots> \<le> (A * (1 + u52)) * (1 + u53)"
    using Phi u by (intro mult_right_mono) simp_all
  also have "\<dots> = A * ((1 + u52) * (1 + u53))" by simp
  also have "\<dots> \<le> A * (1 + u51)"
    using A0 u(4) by (intro mult_left_mono) simp_all
  finally show ?thesis using mfin by (simp add: A_def u51_def)
qed





text \<open>
  Claim C9, as stated, fails: an order amount can exceed the entered amount, because
  the division and the multiplication each round. With the amount \<^verbatim>\<open>5\<close>, the low limit
  \<^verbatim>\<open>1\<close> and the high limit \<^verbatim>\<open>46\<close>, the limit probabilities are \<^verbatim>\<open>0.01\<close> and
  \<^verbatim>\<open>0.46\<close>, the shares are \<^verbatim>\<open>9.25925925925926\<close> and the NO order amount is
  \<^verbatim>\<open>5.000000000000001\<close>, which is more than \<^verbatim>\<open>5\<close>.
\<close>

theorem two_sided_amounts_counterexample:
  "yesLimitProb \<lparr>user = Some ''u1'',
      panelContract = \<lparr>contractId = ''c1'', resolutionTime = None, closeTime = None,
                        isResolved = False\<rparr>,
      betAmount = Some (ofInt 5), lowLimitProb = Some (ofInt 1), highLimitProb = Some (ofInt 46),
      error = None, isSubmitting = False\<rparr> = Some (Val 5764607523034235 (- 59)) \<and>
   noLimitProb \<lparr>user = Some ''u1'',
      panelContract = \<lparr>contractId = ''c1'', resolutionTime = None, closeTime = None,
                        isResolved = False\<rparr>,
      betAmount = Some (ofInt 5), lowLimitProb = Some (ofInt 1), highLimitProb = Some (ofInt 46),
      error = None, isSubmitting = False\<rparr> = Some (Val 8286623314361713 (- 54)) \<and>
   shares \<lparr>user = Some ''u1'',
      panelContract = \<lparr>contractId = ''c1'', resolutionTime = None, closeTime = None,
                        isResolved = False\<rparr>,
      betAmount = Some (ofInt 5), lowLimitProb = Some (ofInt 1), highLimitProb = Some (ofInt 46),
      error = None, isSubmitting = False\<rparr> = Val 1303124892178963 (- 47) \<and>
   noAmount \<lparr>user = Some ''u1'',
      panelContract = \<lparr>contractId = ''c1'', resolutionTime = None, closeTime = None,
                        isResolved = False\<rparr>,
      betAmount = Some (ofInt 5), lowLimitProb = Some (ofInt 1), highLimitProb = Some (ofInt 46),
      error = None, isSubmitting = False\<rparr> = Val 5629499534213121 (- 50) \<and>
   lt (ofInt 5) (Val 5629499534213121 (- 50)) \<and>
   \<not> le (Val 5629499534213121 (- 50)) (ofInt 5)"
  by code_simp

text \<open>
  Claim C9, amended. When both a YES and a NO limit probability are set and are numbers,
  and the entered amount is a finite number between \<open>2^-1000\<close> and \<open>2^1000\<close>, the
  shares are the smaller of \<open>amount / yesLimitProb\<close> and \<open>amount / (1 - noLimitProb)\<close>,
  the order amounts are \<open>shares * yesLimitProb\<close> and \<open>shares * (1 - noLimitProb)\<close>, and
  both are finite and exceed the entered amount by at most the relative rounding error
  \<open>2^-51\<close>: neither is more than \<open>amount * (1 + 2^-51)\<close>.
\<close>

theorem two_sided_amounts_bounded:
  assumes amt: "betAmount st = Some a" and fin: "isFinite a"
    and ar: "2 powi (- 1000) \<le> valof a" "valof a \<le> 2 powi 1000"
    and y: "yesLimitProb st = Some y" and n: "noLimitProb st = Some n"
    and nn: "y \<noteq> NaN" "n \<noteq> NaN"
  shows "shares st = Math_min (divide_num (amount st) y)
                              (divide_num (amount st) (sub (ofInt 1) n)) \<and>
         yesAmount st = mul (shares st) y \<and>
         noAmount st = mul (shares st) (sub (ofInt 1) n) \<and>
         isFinite (yesAmount st) \<and> valof (yesAmount st) \<le> valof a * (1 + 2 powi (- 51)) \<and>
         isFinite (noAmount st) \<and> valof (noAmount st) \<le> valof a * (1 + 2 powi (- 51))"
proof -
  let ?z = "sub (ofInt 1) n"
  have am: "amount st = a" using amt by (simp add: amount_def)
  have sh: "shares st = Math_min (divide_num a y) (divide_num a ?z)"
    by (simp add: shares_def y n am)
  have ya: "yesAmount st = mul (shares st) y" by (simp add: yesAmount_def y)
  have na: "noAmount st = mul (shares st) ?z" by (simp add: noAmount_def n)
  from yesLimitProb_cases [OF y] nn
  have yc: "isFinite y" "le (decimal 1 1000) y" "le y (decimal 999 1000)" by auto
  from noLimitProb_cases [OF n] nn
  have nc: "isFinite n" "le (decimal 1 1000) n" "le n (decimal 999 1000)" by auto
  from limit_prob_value [OF yc] have yv: "2 powi (- 10) \<le> valof y" "valof y \<le> 1 - 2 powi (- 10)"
    by simp_all
  have yr: "2 powi (- 11) \<le> valof y" "valof y \<le> 2"
  proof -
    have "(2::real) powi (- 11) \<le> 2 powi (- 10)" by (rule power_int_increasing) simp_all
    with yv show "2 powi (- 11) \<le> valof y" by linarith
    have "(0::real) < 2 powi (- 10)" by simp
    with yv show "valof y \<le> 2" by linarith
  qed
  from one_minus_limit [OF nc]
  have zf: "isFinite ?z" and zr: "2 powi (- 11) \<le> valof ?z" "valof ?z \<le> 2" by simp_all
  from price_quotient [OF fin ar yc(1) yr]
  have d1: "isFinite (divide_num a y)" "2 powi (- 1002) \<le> valof (divide_num a y)" by simp_all
  from price_quotient [OF fin ar zf zr]
  have d2: "isFinite (divide_num a ?z)" "2 powi (- 1002) \<le> valof (divide_num a ?z)" by simp_all
  from Math_min_finite [OF d1(1) d2(1)]
  have mn: "shares st = divide_num a y \<or> shares st = divide_num a ?z"
    and m1: "valof (shares st) \<le> valof (divide_num a y)"
    and m2: "valof (shares st) \<le> valof (divide_num a ?z)"
    unfolding sh by simp_all
  from mn d1 d2 have sf: "isFinite (shares st)" and s2: "2 powi (- 1002) \<le> valof (shares st)"
    by auto
  have "(2::real) powi (- 1003) \<le> 2 powi (- 1002)" by (rule power_int_increasing) simp_all
  with s2 have sl: "2 powi (- 1003) \<le> valof (shares st)" by linarith
  from order_amount_bound [OF fin ar yc(1) yr sf m1 sl]
       order_amount_bound [OF fin ar zf zr sf m2 sl]
  show ?thesis using sh ya na am by simp
qed

theorem two_sided_amounts_bounded_witness:
  "isFinite (ofInt 5) \<and> (2::real) powi (- 1000) \<le> valof (ofInt 5) \<and>
   valof (ofInt 5) \<le> (2::real) powi 1000 \<and>
   noAmount \<lparr>user = Some ''u1'',
      panelContract = \<lparr>contractId = ''c1'', resolutionTime = None, closeTime = None,
                        isResolved = False\<rparr>,
      betAmount = Some (ofInt 5), lowLimitProb = Some (ofInt 1), highLimitProb = Some (ofInt 46),
      error = None, isSubmitting = False\<rparr> = Val 5629499534213121 (- 50) \<and>
   valof (Val 5629499534213121 (- 50)) \<le> valof (ofInt 5) * (1 + 2 powi (- 51)) \<and>
   yesAmount \<lparr>user = Some ''u1'',
      panelContract = \<lparr>contractId = ''c1'', resolutionTime = None, closeTime = None,
                        isResolved = False\<rparr>,
      betAmount = Some (ofInt 5), lowLimitProb = Some (ofInt 1), highLimitProb = Some (ofInt 46),
      error = None, isSubmitting = False\<rparr> = Val 6671999447956291 (- 56) \<and>
   valof (Val 6671999447956291 (- 56)) \<le> valof (ofInt 5) * (1 + 2 powi (- 51))"
proof -
  let ?st = "\<lparr>user = Some ''u1'',
      panelContract = \<lparr>contractId = ''c1'', resolutionTime = None, closeTime = None,
                        isResolved = False\<rparr>,
      betAmount = Some (ofInt 5), lowLimitProb = Some (ofInt 1), highLimitProb = Some (ofInt 46),
      error = None, isSubmitting = False\<rparr>"
  have c: "yesLimitProb ?st = Some (Val 5764607523034235 (- 59)) \<and>
           noLimitProb ?st = Some (Val 8286623314361713 (- 54)) \<and>
           noAmount ?st = Val 5629499534213121 (- 50) \<and>
           yesAmount ?st = Val 6671999447956291 (- 56) \<and> ofInt 5 = Val 5 0"
    by code_simp
  have a: "betAmount ?st = Some (ofInt 5)" by simp
  have f: "isFinite (ofInt 5)" by (simp add: c)
  have lo: "(2::real) powi (- 1000) \<le> valof (ofInt 5)"
  proof -
    have "(2::real) powi (- 1000) \<le> 2 powi 0" by (rule power_int_increasing) simp_all
    then show ?thesis by (simp add: c)
  qed
  have hi: "valof (ofInt 5) \<le> (2::real) powi 1000"
  proof -
    have "(2::real) powi 3 \<le> 2 powi 1000" by (rule power_int_increasing) simp_all
    then show ?thesis by (simp add: c)
  qed
  from c have y: "yesLimitProb ?st = Some (Val 5764607523034235 (- 59))"
    and n: "noLimitProb ?st = Some (Val 8286623314361713 (- 54))" by blast+
  have nn: "Val 5764607523034235 (- 59) \<noteq> NaN" "Val 8286623314361713 (- 54) \<noteq> NaN"
    by simp_all
  note bounded = two_sided_amounts_bounded [OF a f lo hi y n nn]
  from c have na: "noAmount ?st = Val 5629499534213121 (- 50)"
    and ya: "yesAmount ?st = Val 6671999447956291 (- 56)" by blast+
  from bounded have "valof (noAmount ?st) \<le> valof (ofInt 5) * (1 + 2 powi (- 51))"
    and "valof (yesAmount ?st) \<le> valof (ofInt 5) * (1 + 2 powi (- 51))"
    by blast+
  then have "valof (Val 5629499534213121 (- 50)) \<le> valof (ofInt 5) * (1 + 2 powi (- 51))"
    and "valof (Val 6671999447956291 (- 56)) \<le> valof (ofInt 5) * (1 + 2 powi (- 51))"
    by (simp_all only: na ya)
  with c f lo hi show ?thesis by blast
qed














section \<open>Properties of the bet-list filters\<close>

text \<open>
  Claim C10. For every contract and every current time, exactly one of the filters
  \<^verbatim>\<open>resolved\<close>, \<^verbatim>\<open>closed\<close> and \<^verbatim>\<open>open\<close> holds. A contract is resolved when its
  \<^verbatim>\<open>resolutionTime\<close> is set (and truthy); it is closed when it is not resolved and its
  \<^verbatim>\<open>closeTime\<close> is before now, a contract without \<^verbatim>\<open>closeTime\<close> never being closed.
\<close>

theorem filters_partition:
  "(FILTERS_resolved c \<and> \<not> FILTERS_closed now c \<and> \<not> FILTERS_open now c \<or>
    \<not> FILTERS_resolved c \<and> FILTERS_closed now c \<and> \<not> FILTERS_open now c \<or>
    \<not> FILTERS_resolved c \<and> \<not> FILTERS_closed now c \<and> FILTERS_open now c) \<and>
   (FILTERS_resolved c \<longleftrightarrow> (\<exists>t. resolutionTime c = Some t \<and> truthy t)) \<and>
   (FILTERS_closed now c \<longleftrightarrow> \<not> FILTERS_resolved c \<and> (\<exists>t. closeTime c = Some t \<and> lt t now)) \<and>
   (closeTime c = None \<longrightarrow> \<not> FILTERS_closed now c)"
proof -
  have inf: "\<not> lt Infinity now" by (cases now) simp_all
  show ?thesis
    using inf by (auto simp: FILTERS_open_def FILTERS_closed_def FILTERS_resolved_def
        split: option.splits)
qed

theorem filters_partition_witness:
  "closeTime \<lparr>contractId = ''c1'', resolutionTime = None, closeTime = None,
              isResolved = False\<rparr> = None \<and>
   \<not> FILTERS_resolved \<lparr>contractId = ''c1'', resolutionTime = None, closeTime = None,
              isResolved = False\<rparr> \<and>
   \<not> FILTERS_closed (ofInt 1000) \<lparr>contractId = ''c1'', resolutionTime = None, closeTime = None,
              isResolved = False\<rparr> \<and>
   FILTERS_open (ofInt 1000) \<lparr>contractId = ''c1'', resolutionTime = None, closeTime = None,
              isResolved = False\<rparr> \<and>
   lt (ofInt 900) (ofInt 1000) \<and>
   FILTERS_closed (ofInt 1000) \<lparr>contractId = ''c2'', resolutionTime = None,
              closeTime = Some (ofInt 900), isResolved = False\<rparr>"
proof -
  have l: "lt (ofInt 900) (ofInt 1000)" by code_simp
  from filters_partition
    [of "\<lparr>contractId = ''c1'', resolutionTime = None, closeTime = None, isResolved = False\<rparr>"
        "ofInt 1000"]
    filters_partition
    [of "\<lparr>contractId = ''c2'', resolutionTime = None, closeTime = Some (ofInt 900),
          isResolved = False\<rparr>" "ofInt 1000"] l
  show ?thesis by (auto simp: FILTERS_resolved_def)
qed

section \<open>Properties of settlement and of limit orders\<close>

text \<open>
  Claim C2. On a market resolved to \<^verbatim>\<open>CANCEL\<close> the payout of a bet is the amount
  wagered, whatever shares the bet holds and whichever outcome it is on.
\<close>

theorem cancel_refunds_amount:
  "resolvedPayout CANCEL rp b = b_amount b \<and>
   resolvedPayout CANCEL rp (b\<lparr>b_outcome := oc, b_shares := s\<rparr>) = b_amount b"
  by (simp add: resolvedPayout_def)

theorem cancel_refunds_amount_witness:
  "resolvedPayout CANCEL (1 / 2)
     \<lparr>b_id = ''b1'', b_outcome = YES, b_amount = 10, b_shares = 25, b_limitProb = None,
      b_orderAmount = None, b_fills = [], b_isFilled = False, b_isCancelled = False\<rparr> = 10 \<and>
   resolvedPayout CANCEL (1 / 2)
     \<lparr>b_id = ''b1'', b_outcome = NO, b_amount = 10, b_shares = 3, b_limitProb = None,
      b_orderAmount = None, b_fills = [], b_isFilled = False, b_isCancelled = False\<rparr> = 10"
  using cancel_refunds_amount
    [where rp = "1 / 2" and oc = NO and s = 3 and
      b = "\<lparr>b_id = ''b1'', b_outcome = YES, b_amount = 10, b_shares = 25,
          b_limitProb = None, b_orderAmount = None, b_fills = [], b_isFilled = False,
          b_isCancelled = False\<rparr>"]
  by simp

text \<open>
  A fill appends to the fills of an order and takes its amount off the remaining
  amount. The invariant of an order: it is never over-filled, and an order that is
  still open has something left.
\<close>

lemma applyEvent_Match_remaining:
  assumes "applyEvent (Match want spu m ts) b = Some b'"
  shows "remainingAmount b' = remainingAmount b - min want (remainingAmount b) \<and>
         0 < want \<and> isOpenLimitBet b \<and>
         b_isFilled b' = (remainingAmount b' \<le> 0) \<and> b_isCancelled b' = b_isCancelled b \<and>
         b_limitProb b' = b_limitProb b"
  using assms by (auto simp: Let_def remainingAmount_def split: if_splits)

lemma applyEvent_Cancel_remaining:
  assumes "applyEvent Cancel b = Some b'"
  shows "remainingAmount b' = remainingAmount b \<and> b_isCancelled b'"
  using assms by (auto simp: remainingAmount_def split: if_splits)

lemma applyEvent_invariant:
  assumes inv: "0 \<le> remainingAmount b \<and> (isOpenLimitBet b \<longrightarrow> 0 < remainingAmount b)"
    and step: "applyEvent ev b = Some b'"
  shows "0 \<le> remainingAmount b' \<and> (isOpenLimitBet b' \<longrightarrow> 0 < remainingAmount b')"
proof (cases ev)
  case (Match want spu m ts)
  from applyEvent_Match_remaining [OF step [unfolded Match]] inv
  show ?thesis by (auto simp: isOpenLimitBet_def min_def split: if_splits)
next
  case Cancel
  from applyEvent_Cancel_remaining [OF step [unfolded Cancel]] inv
  show ?thesis by (auto simp: isOpenLimitBet_def)
qed

lemma applyEvents_invariant:
  assumes "0 \<le> remainingAmount b \<and> (isOpenLimitBet b \<longrightarrow> 0 < remainingAmount b)"
  shows "0 \<le> remainingAmount (applyEvents evs b) \<and>
         (isOpenLimitBet (applyEvents evs b) \<longrightarrow> 0 < remainingAmount (applyEvents evs b))"
  using assms
proof (induction evs arbitrary: b)
  case Nil
  then show ?case by simp
next
  case (Cons ev evs)
  show ?case
  proof (cases "applyEvent ev b")
    case None
    then show ?thesis using Cons.IH [OF Cons.prems] by simp
  next
    case (Some b')
    from applyEvent_invariant [OF Cons.prems Some]
    show ?thesis using Cons.IH [of b'] Some by simp
  qed
qed

lemma newLimitOrder_invariant:
  "0 < orderAmt \<Longrightarrow> 0 \<le> remainingAmount (newLimitOrder bid outc orderAmt prob) \<and>
     (isOpenLimitBet (newLimitOrder bid outc orderAmt prob) \<longrightarrow>
        0 < remainingAmount (newLimitOrder bid outc orderAmt prob))"
  by (simp add: newLimitOrder_def remainingAmount_def)

lemma terminal_no_event:
  assumes "orderState b = Filled \<or> orderState b = Cancelled"
  shows "applyEvent ev b = None"
  using assms by (cases ev) (auto simp: orderState_def isOpenLimitBet_def split: if_splits)

lemma terminal_applyEvents:
  assumes "orderState b = Filled \<or> orderState b = Cancelled"
  shows "applyEvents evs b = b"
  using assms by (induction evs) (simp_all add: terminal_no_event)

lemma terminal_not_listed:
  assumes "orderState b = Filled \<or> orderState b = Cancelled"
  shows "\<not> isOpenLimitBet b"
  using assms by (auto simp: orderState_def isOpenLimitBet_def split: if_splits)

text \<open>
  Claim C6. For a limit order placed for a positive amount, after any history of
  matches and cancellations: the remaining amount \<open>orderAmount - sum(fills.amount)\<close> is
  not negative; a further fill makes it strictly smaller; and an order that is filled or
  cancelled takes no further event, stays as it is, and is not among the open limit
  orders.
\<close>

theorem limit_order_fills:
  assumes pos: "0 < orderAmt"
    and b: "b = applyEvents evs (newLimitOrder bid outc orderAmt prob)"
  shows "0 \<le> remainingAmount b \<and>
         (applyEvent (Match want spu m ts) b = Some b' \<longrightarrow>
            remainingAmount b' < remainingAmount b \<and> 0 \<le> remainingAmount b') \<and>
         (orderState b = Filled \<or> orderState b = Cancelled \<longrightarrow>
            applyEvent ev b = None \<and> applyEvents evs' b = b \<and> limitBets [b] = [])"
proof -
  have inv: "0 \<le> remainingAmount b \<and> (isOpenLimitBet b \<longrightarrow> 0 < remainingAmount b)"
    unfolding b by (rule applyEvents_invariant [OF newLimitOrder_invariant [OF pos]])
  have fill: "remainingAmount b' < remainingAmount b \<and> 0 \<le> remainingAmount b'"
    if step: "applyEvent (Match want spu m ts) b = Some b'"
  proof -
    from applyEvent_Match_remaining [OF step] inv
    have "remainingAmount b' < remainingAmount b" by (auto simp: min_def split: if_splits)
    moreover from applyEvent_invariant [OF inv step] have "0 \<le> remainingAmount b'" by simp
    ultimately show ?thesis by simp
  qed
  have fin: "applyEvent ev b = None \<and> applyEvents evs' b = b \<and> limitBets [b] = []"
    if t: "orderState b = Filled \<or> orderState b = Cancelled"
    using terminal_no_event [OF t] terminal_applyEvents [OF t] terminal_not_listed [OF t]
    by (simp add: limitBets_def)
  from inv fill fin show ?thesis by blast
qed

theorem limit_order_fills_witness:
  "(0::real) < 20 \<and>
   remainingAmount (applyEvents [Match 5 2 (Some ''b2'') 1] (newLimitOrder ''b1'' YES 20 (2 / 5))) = 15 \<and>
   applyEvent (Match 30 2 None 2)
     (applyEvents [Match 5 2 (Some ''b2'') 1] (newLimitOrder ''b1'' YES 20 (2 / 5))) =
   Some (applyEvents [Match 5 2 (Some ''b2'') 1, Match 30 2 None 2]
          (newLimitOrder ''b1'' YES 20 (2 / 5))) \<and>
   remainingAmount (applyEvents [Match 5 2 (Some ''b2'') 1, Match 30 2 None 2]
          (newLimitOrder ''b1'' YES 20 (2 / 5))) = 0 \<and>
   orderState (applyEvents [Match 5 2 (Some ''b2'') 1, Match 30 2 None 2]
          (newLimitOrder ''b1'' YES 20 (2 / 5))) = Filled \<and>
   applyEvent (Match 1 2 None 3) (applyEvents [Match 5 2 (Some ''b2'') 1, Match 30 2 None 2]
          (newLimitOrder ''b1'' YES 20 (2 / 5))) = None"
proof -
  have pos: "(0::real) < 20" by simp
  let ?b1 = "applyEvents [Match 5 2 (Some ''b2'') 1] (newLimitOrder ''b1'' YES 20 (2 / 5))"
  let ?b2 = "applyEvents [Match 5 2 (Some ''b2'') 1, Match 30 2 None 2]
          (newLimitOrder ''b1'' YES 20 (2 / 5))"
  have r1: "remainingAmount ?b1 = 15"
    by (simp add: newLimitOrder_def isOpenLimitBet_def remainingAmount_def Let_def)
  have s: "applyEvent (Match 30 2 None 2) ?b1 = Some ?b2"
    by (simp add: newLimitOrder_def isOpenLimitBet_def remainingAmount_def Let_def)
  have r2: "remainingAmount ?b2 = 0"
    by (simp add: newLimitOrder_def isOpenLimitBet_def remainingAmount_def Let_def)
  have f: "orderState ?b2 = Filled"
    by (simp add: newLimitOrder_def isOpenLimitBet_def remainingAmount_def Let_def orderState_def)
  from limit_order_fills [OF pos refl, of "[Match 5 2 (Some ''b2'') 1]" "''b1''" YES "2 / 5"
      30 2 None 2 ?b2] s
  have "remainingAmount ?b2 < remainingAmount ?b1" by blast
  moreover
  from limit_order_fills [OF pos refl,
      of "[Match 5 2 (Some ''b2'') 1, Match 30 2 None 2]" "''b1''" YES "2 / 5"
      1 2 None 3 _ "Match 1 2 None 3" "[]"] f
  have "applyEvent (Match 1 2 None 3) ?b2 = None" by blast
  ultimately show ?thesis using pos r1 s r2 f by simp
qed

end
